theory Spec2Isabelle
  imports Complex_Main "HOL-Library.Sublist"
begin

section \<open>Python values and built-in list operations\<close>

text \<open>
  The two classes of the library, \<^verbatim>\<open>Queue\<close> (Queue.py) and \<^verbatim>\<open>Segtree\<close> (Segtree.py),
  are embedded as records with explicit state passing. Every exception of the source is a
  value: \<^verbatim>\<open>IndexError(msg)\<close> is \<open>IndexError msg\<close>, and a method that can raise returns
  \<open>error + 'r\<close> with \<open>Inl\<close> for the raised exception.

  Python's \<^verbatim>\<open>None\<close> is \<open>None\<close> of \<open>'a option\<close>; a value of the item type \<open>T\<close> is
  \<open>Some x\<close>.
\<close>

datatype error = IndexError string

text \<open>
  \<^verbatim>\<open>xs[i]\<close> and \<^verbatim>\<open>xs[i] = v\<close> for an index \<open>i \<ge> 0\<close>: Python raises IndexError when
  \<open>i \<ge> len(xs)\<close>, with these messages. All list indices of the two classes are
  non-negative, so they are natural numbers here.
\<close>

definition py_get :: "'a list \<Rightarrow> nat \<Rightarrow> error + 'a" where
  "py_get xs i = (if i < length xs then Inr (xs ! i)
                  else Inl (IndexError ''list index out of range''))"

definition py_set :: "'a list \<Rightarrow> nat \<Rightarrow> 'a \<Rightarrow> error + 'a list" where
  "py_set xs i v = (if i < length xs then Inr (xs[i := v])
                    else Inl (IndexError ''list assignment index out of range''))"

text \<open>\<^verbatim>\<open>xs.pop()\<close>: removes and returns the last item, IndexError on an empty list.\<close>

definition py_pop :: "'a list \<Rightarrow> error + ('a \<times> 'a list)" where
  "py_pop xs = (if xs = [] then Inl (IndexError ''pop from empty list'')
                else Inr (last xs, butlast xs))"

text \<open>\<^verbatim>\<open>xs[a:b]\<close> for \<open>0 \<le> a \<le> b\<close>: the slice is clamped to the list, it never raises.\<close>

definition py_slice :: "'a list \<Rightarrow> nat \<Rightarrow> nat \<Rightarrow> 'a list" where
  "py_slice xs a b = take (b - a) (drop a xs)"

section \<open>Queue.py\<close>

text \<open>
  The fields of \<^verbatim>\<open>Queue\<close>: \<^verbatim>\<open>stack_1\<close>, \<^verbatim>\<open>stack_2\<close> (Python lists used as stacks, the
  top is the last item) and the count \<^verbatim>\<open>n\<close> (\<open>queue_n\<close>).
\<close>

record 'a queue =
  stack_1 :: "'a list"
  stack_2 :: "'a list"
  queue_n :: int

definition Queue_init :: "'a queue" where
  "Queue_init = \<lparr>stack_1 = [], stack_2 = [], queue_n = 0\<rparr>"

definition enq :: "'a queue \<Rightarrow> 'a \<Rightarrow> 'a queue" where
  "enq q k = (let q1 = q\<lparr>queue_n := queue_n q + 1\<rparr>
              in q1\<lparr>stack_1 := stack_1 q1 @ [k]\<rparr>)"

text \<open>
  The transfer loop of \<^verbatim>\<open>deq\<close>:
  \<^verbatim>\<open>while len(self.stack_1) != 0: next = self.stack_1.pop(); self.stack_2.append(next)\<close>.
  The pop is guarded by the loop condition, so it cannot raise.
\<close>

function transfer :: "'a list \<Rightarrow> 'a list \<Rightarrow> 'a list \<times> 'a list" where
  "transfer s1 s2 =
     (if length s1 \<noteq> 0 then transfer (butlast s1) (s2 @ [last s1]) else (s1, s2))"
  by pat_completeness auto
termination
  by (relation "measure (\<lambda>(s1, s2). length s1)") auto

declare transfer.simps [simp del]

text \<open>
  \<^verbatim>\<open>deq\<close> returns \<^verbatim>\<open>None\<close> on count 0 without touching the queue; otherwise it
  decrements the count, refills \<^verbatim>\<open>stack_2\<close> when it is empty and pops it. The final
  \<^verbatim>\<open>self.stack_2.pop()\<close> is not guarded in the source, so it is fallible here.
\<close>

definition deq :: "'a queue \<Rightarrow> (error + 'a option) \<times> 'a queue" where
  "deq q =
     (if queue_n q = 0 then (Inr None, q)
      else
        let q1 = q\<lparr>queue_n := queue_n q - 1\<rparr>;
            q2 = (if length (stack_2 q1) = 0
                  then (case transfer (stack_1 q1) (stack_2 q1) of
                          (s1, s2) \<Rightarrow> q1\<lparr>stack_1 := s1, stack_2 := s2\<rparr>)
                  else q1)
        in case py_pop (stack_2 q2) of
             Inl e \<Rightarrow> (Inl e, q2)
           | Inr (x, s2) \<Rightarrow> (Inr (Some x), q2\<lparr>stack_2 := s2\<rparr>))"

definition clear :: "'a queue \<Rightarrow> 'a queue" where
  "clear q = q\<lparr>stack_1 := [], stack_2 := [], queue_n := 0\<rparr>"

definition len :: "'a queue \<Rightarrow> int" where
  "len q = queue_n q"

text \<open>
  A caller's run of \<open>k\<close> dequeues, collecting the results in order, and the queue states a
  caller can build through the public methods.
\<close>

fun deq_times :: "nat \<Rightarrow> 'a queue \<Rightarrow> (error + 'a option) list \<times> 'a queue" where
  "deq_times 0 q = ([], q)"
| "deq_times (Suc k) q =
     (case deq q of (r, q1) \<Rightarrow>
        (case deq_times k q1 of (rs, q2) \<Rightarrow> (r # rs, q2)))"

inductive queue_reachable :: "'a queue \<Rightarrow> bool" where
  reach_init: "queue_reachable Queue_init"
| reach_enq: "queue_reachable q \<Longrightarrow> queue_reachable (enq q k)"
| reach_deq: "queue_reachable q \<Longrightarrow> queue_reachable (snd (deq q))"
| reach_clear: "queue_reachable q \<Longrightarrow> queue_reachable (clear q)"

text \<open>The logical contents, front first, and the count invariant.\<close>

definition contents :: "'a queue \<Rightarrow> 'a list" where
  "contents q = rev (stack_2 q) @ stack_1 q"

definition queue_inv :: "'a queue \<Rightarrow> bool" where
  "queue_inv q = (queue_n q = int (length (stack_1 q) + length (stack_2 q)))"

section \<open>Segtree.py\<close>

text \<open>
  The fields of \<^verbatim>\<open>Segtree\<close>: \<^verbatim>\<open>n\<close> (\<open>tree_n\<close>, the length of the underlying array),
  \<^verbatim>\<open>op\<close> (\<open>tree_op\<close>, the join operator wrapped to accept \<^verbatim>\<open>None\<close>), \<^verbatim>\<open>l\<close> (\<open>tree_l\<close>,
  the number of nodes), \<^verbatim>\<open>seg\<close> (the node values, \<^verbatim>\<open>None\<close> for padding) and \<^verbatim>\<open>span\<close>
  (for each node the two-item list \<^verbatim>\<open>[L, R]\<close>, a pair here).

  The underlying array is a Python list, whose items may themselves be \<^verbatim>\<open>None\<close>, so it is
  an \<open>'a option list\<close>; the claims about real values carry that as a hypothesis. The join
  operator supplied by the caller is a binary operation on the item type.
\<close>

record 'a segtree =
  tree_n :: nat
  tree_op :: "'a option \<Rightarrow> 'a option \<Rightarrow> 'a option"
  tree_l :: nat
  seg :: "'a option list"
  span :: "(int \<times> int) list"

text \<open>The closure \<^verbatim>\<open>op_none\<close> of \<^verbatim>\<open>__init__\<close>, with its four branches in source order.\<close>

definition op_none :: "('a \<Rightarrow> 'a \<Rightarrow> 'a) \<Rightarrow> 'a option \<Rightarrow> 'a option \<Rightarrow> 'a option" where
  "op_none f a b =
     (if a = None \<and> b = None then None
      else if a = None then b
      else if b = None then a
      else Some (f (the a) (the b)))"

text \<open>
  \<^verbatim>\<open>_ceil_log_2\<close>: the loop \<^verbatim>\<open>while n > 1\<close> over the state \<open>(n, ans, exact)\<close>, then the
  final adjustment. \<^verbatim>\<open>n >>= 1\<close> is floor division by 2 on Python's unbounded integers.
\<close>

function ceil_log_2_loop :: "int \<Rightarrow> nat \<Rightarrow> bool \<Rightarrow> nat \<times> bool" where
  "ceil_log_2_loop n ans exact =
     (if n > 1
      then ceil_log_2_loop (n div 2) (ans + 1) (if n mod 2 = 1 then False else exact)
      else (ans, exact))"
  by pat_completeness auto
termination
  by (relation "measure (\<lambda>(n, ans, exact). nat n)") auto

declare ceil_log_2_loop.simps [simp del]

definition ceil_log_2 :: "int \<Rightarrow> nat" where
  "ceil_log_2 n =
     (case ceil_log_2_loop n 0 True of
        (ans, exact) \<Rightarrow> if exact then ans else ans + 1)"

text \<open>
  The first loop of \<^verbatim>\<open>__init__\<close>, \<^verbatim>\<open>for i in range(self.n)\<close>, run over the list of its
  indices: it copies \<^verbatim>\<open>a[i]\<close> into leaf \<^verbatim>\<open>i + k-1\<close> and sets that leaf's span.
\<close>

fun leaves_loop ::
  "'a option list \<Rightarrow> nat \<Rightarrow> nat list \<Rightarrow> 'a option list \<times> (int \<times> int) list
     \<Rightarrow> error + ('a option list \<times> (int \<times> int) list)" where
  "leaves_loop a k [] (sg, sp) = Inr (sg, sp)"
| "leaves_loop a k (i # js) (sg, sp) =
     (case py_get a i of Inl e \<Rightarrow> Inl e | Inr x \<Rightarrow>
      (case py_set sg (i + k - 1) x of Inl e \<Rightarrow> Inl e | Inr sg1 \<Rightarrow>
       (case py_set sp (i + k - 1) (int i, int i + 1) of Inl e \<Rightarrow> Inl e | Inr sp1 \<Rightarrow>
          leaves_loop a k js (sg1, sp1))))"

text \<open>
  The second loop, \<^verbatim>\<open>for i in range(k-2,-1,-1)\<close>, run over the list of its indices: it
  joins the children's values and spans into node \<open>i\<close>.
\<close>

fun inner_loop ::
  "('a option \<Rightarrow> 'a option \<Rightarrow> 'a option) \<Rightarrow> nat list \<Rightarrow> 'a option list \<times> (int \<times> int) list
     \<Rightarrow> error + ('a option list \<times> (int \<times> int) list)" where
  "inner_loop opn [] (sg, sp) = Inr (sg, sp)"
| "inner_loop opn (i # js) (sg, sp) =
     (case py_get sg (2 * i + 1) of Inl e \<Rightarrow> Inl e | Inr x \<Rightarrow>
      (case py_get sg (2 * i + 2) of Inl e \<Rightarrow> Inl e | Inr y \<Rightarrow>
       (case py_set sg i (opn x y) of Inl e \<Rightarrow> Inl e | Inr sg1 \<Rightarrow>
        (case py_get sp (2 * i + 1) of Inl e \<Rightarrow> Inl e | Inr cl \<Rightarrow>
         (case py_get sp (2 * i + 2) of Inl e \<Rightarrow> Inl e | Inr cr \<Rightarrow>
          (case py_set sp i (fst cl, snd cr) of Inl e \<Rightarrow> Inl e | Inr sp1 \<Rightarrow>
             inner_loop opn js (sg1, sp1)))))))"

text \<open>
  \<^verbatim>\<open>__init__\<close>. \<open>k\<close> is the padded number of leaves and \<open>l = 2*k - 1\<close> the number of
  nodes; \<^verbatim>\<open>range(k-2,-1,-1)\<close> is \<open>k-2, ..., 0\<close>, empty for \<open>k = 1\<close>.
\<close>

definition segtree_init :: "'a option list \<Rightarrow> ('a \<Rightarrow> 'a \<Rightarrow> 'a) \<Rightarrow> error + 'a segtree" where
  "segtree_init a f =
     (let n = length a;
          opn = op_none f;
          k = 2 ^ ceil_log_2 (int n);
          l = 2 * k - 1;
          seg0 = replicate l None;
          span0 = replicate l (int n, int n)
      in case leaves_loop a k [0..<n] (seg0, span0) of
           Inl e \<Rightarrow> Inl e
         | Inr (seg1, span1) \<Rightarrow>
             (case inner_loop opn (rev [0..<k - 1]) (seg1, span1) of
                Inl e \<Rightarrow> Inl e
              | Inr (seg2, span2) \<Rightarrow>
                  Inr \<lparr>tree_n = n, tree_op = opn, tree_l = l, seg = seg2, span = span2\<rparr>))"

text \<open>
  Python's \<^verbatim>\<open>str\<close> of an integer, as the f-strings of the error messages use it: decimal
  digits, with a leading minus sign for a negative number.
\<close>

definition digit_char :: "nat \<Rightarrow> char" where
  "digit_char d = ''0123456789'' ! d"

function str_nat :: "nat \<Rightarrow> string" where
  "str_nat m = (if m < 10 then [digit_char m] else str_nat (m div 10) @ [digit_char (m mod 10)])"
  by pat_completeness auto
termination
  by (relation "measure (\<lambda>m. m)") auto

declare str_nat.simps [simp del]

definition py_str :: "int \<Rightarrow> string" where
  "py_str i = (if i < 0 then CHR ''-'' # str_nat (nat (- i)) else str_nat (nat i))"

text \<open>
  \<^verbatim>\<open>_help_me_query\<close>. The node index \<open>i\<close> starts at 0 and only grows to \<open>2*i+1\<close> and
  \<open>2*i+2\<close>. Every list read is fallible, as in Python; the recursion ends because a
  child is visited only after its span has been read, that is, when it exists.
\<close>

function help_me_query :: "'a segtree \<Rightarrow> int \<Rightarrow> int \<Rightarrow> nat \<Rightarrow> error + 'a option" where
  "help_me_query st L R i =
     (case py_get (span st) i of Inl e \<Rightarrow> Inl e | Inr s0 \<Rightarrow>
        if L = fst s0 \<and> R = snd s0 then py_get (seg st) i
        else
          (case py_get (span st) (2 * i + 1) of Inl e \<Rightarrow> Inl e | Inr sl \<Rightarrow>
           (case py_get (span st) (2 * i + 2) of Inl e \<Rightarrow> Inl e | Inr sr \<Rightarrow>
              let m = snd sl in
              if R \<le> m then help_me_query st L R (2 * i + 1)
              else if L \<ge> m then help_me_query st L R (2 * i + 2)
              else
                (case help_me_query st L m (2 * i + 1) of Inl e \<Rightarrow> Inl e | Inr ans_L \<Rightarrow>
                 (case help_me_query st m R (2 * i + 2) of Inl e \<Rightarrow> Inl e | Inr ans_R \<Rightarrow>
                    Inr (tree_op st ans_L ans_R))))))"
  by pat_completeness auto
termination
  by (relation "measure (\<lambda>(st, L, R, i). length (span st) - i)")
     (auto simp: py_get_def split: if_splits)

declare help_me_query.simps [simp del]

definition query :: "'a segtree \<Rightarrow> int \<Rightarrow> int \<Rightarrow> error + 'a option" where
  "query st L R =
     (if L < 0 \<or> R > int (tree_n st) \<or> L \<ge> R
      then Inl (IndexError (''[L,R] = ['' @ py_str L @ '','' @ py_str R
                            @ ''] but segtree only has '' @ py_str (int (tree_n st))
                            @ '' elements''))
      else help_me_query st L R 0)"

text \<open>
  The loop of \<^verbatim>\<open>update\<close>, \<^verbatim>\<open>while i > 0\<close>: it moves to the parent and recomputes it. It
  returns the node list as far as it was written, also when a list access raises.
\<close>

function update_loop ::
  "('a option \<Rightarrow> 'a option \<Rightarrow> 'a option) \<Rightarrow> 'a option list \<Rightarrow> nat
     \<Rightarrow> (error + unit) \<times> 'a option list" where
  "update_loop opn sg i =
     (if i > 0 then
        let p = (i - 1) div 2 in
        (case py_get sg (2 * p + 1) of Inl e \<Rightarrow> (Inl e, sg) | Inr x \<Rightarrow>
         (case py_get sg (2 * p + 2) of Inl e \<Rightarrow> (Inl e, sg) | Inr y \<Rightarrow>
          (case py_set sg p (opn x y) of Inl e \<Rightarrow> (Inl e, sg) | Inr sg1 \<Rightarrow>
             update_loop opn sg1 p)))
      else (Inr (), sg))"
  by pat_completeness auto
termination
  by (relation "measure (\<lambda>(opn, sg, i). i)") auto

declare update_loop.simps [simp del]

text \<open>
  \<^verbatim>\<open>update\<close> returns the outcome together with the object as the call leaves it. After
  the bounds check the index is shifted into \<open>[0, n)\<close>, so the leaf index \<open>k + ind\<close> is a
  natural number.
\<close>

definition update :: "'a segtree \<Rightarrow> int \<Rightarrow> 'a option \<Rightarrow> (error + unit) \<times> 'a segtree" where
  "update st ind val =
     (if ind \<ge> int (tree_n st) \<or> ind < - int (tree_n st)
      then (Inl (IndexError (''Getting from index out of range: ind = '' @ py_str ind)), st)
      else
        let ind1 = (if ind < 0 then ind + int (tree_n st) else ind);
            k = tree_l st div 2;
            i = k + nat ind1
        in case py_set (seg st) i val of
             Inl e \<Rightarrow> (Inl e, st)
           | Inr sg1 \<Rightarrow>
               (case update_loop (tree_op st) sg1 i of
                  (r, sg2) \<Rightarrow> (r, st\<lparr>seg := sg2\<rparr>)))"

text \<open>\<^verbatim>\<open>get\<close> and \<^verbatim>\<open>arr\<close> only read the object.\<close>

definition get :: "'a segtree \<Rightarrow> int \<Rightarrow> error + 'a option" where
  "get st ind =
     (if ind \<ge> int (tree_n st) \<or> ind < - int (tree_n st)
      then Inl (IndexError (''Getting from index out of range: ind = '' @ py_str ind))
      else
        let ind1 = (if ind < 0 then ind + int (tree_n st) else ind);
            k = tree_l st div 2;
            i = k + nat ind1
        in py_get (seg st) i)"

definition arr :: "'a segtree \<Rightarrow> 'a option list" where
  "arr st = (let k = tree_l st div 2 in py_slice (seg st) k (k + tree_n st))"

section \<open>Segtree: the shape of the tree and the reachable objects\<close>

text \<open>
  The tree has \<open>2 ^ h\<close> leaves. Node \<open>i\<close> sits \<open>j\<close> levels above the leaves and covers
  the padded leaf positions \<open>[lo, lo + 2 ^ j)\<close> exactly when \<open>node_at h i j lo\<close>: the root is
  \<open>node_at h 0 h 0\<close>, and leaf position \<open>lo\<close> is node \<open>2 ^ h - 1 + lo\<close>.
\<close>

definition node_at :: "nat \<Rightarrow> nat \<Rightarrow> nat \<Rightarrow> nat \<Rightarrow> bool" where
  "node_at h i j lo = ((i + 1) * 2 ^ j = lo + 2 ^ h \<and> lo + 2 ^ j \<le> 2 ^ h)"

text \<open>
  The invariant of a tree with \<open>2 ^ h\<close> leaves built over the join \<open>f\<close>: the sizes, the
  value and span of every internal node in terms of its children, the span of every leaf,
  and \<^verbatim>\<open>None\<close> in the padding leaves.
\<close>

definition tree_inv :: "('a \<Rightarrow> 'a \<Rightarrow> 'a) \<Rightarrow> nat \<Rightarrow> 'a segtree \<Rightarrow> bool" where
  "tree_inv f h st =
     (tree_op st = op_none f
      \<and> tree_l st = 2 * 2 ^ h - 1 \<and> tree_n st \<le> 2 ^ h
      \<and> length (seg st) = tree_l st \<and> length (span st) = tree_l st
      \<and> (\<forall>i < 2 ^ h - 1. seg st ! i = tree_op st (seg st ! (2 * i + 1)) (seg st ! (2 * i + 2)))
      \<and> (\<forall>i < 2 ^ h - 1. span st ! i = (fst (span st ! (2 * i + 1)), snd (span st ! (2 * i + 2))))
      \<and> (\<forall>j < 2 ^ h. span st ! (2 ^ h - 1 + j)
                        = (int (min j (tree_n st)), int (min (j + 1) (tree_n st))))
      \<and> (\<forall>j < 2 ^ h. tree_n st \<le> j \<longrightarrow> seg st ! (2 ^ h - 1 + j) = None))"

text \<open>
  The objects a caller can hold: built by \<^verbatim>\<open>__init__\<close> with join \<open>f\<close>, then changed by
  any number of calls of \<^verbatim>\<open>update\<close> that returned normally.
\<close>

inductive tree_reachable :: "('a \<Rightarrow> 'a \<Rightarrow> 'a) \<Rightarrow> 'a segtree \<Rightarrow> bool" where
  reach_build: "segtree_init a f = Inr st \<Longrightarrow> tree_reachable f st"
| reach_update: "tree_reachable f st \<Longrightarrow> update st ind val = (Inr (), st1)
                   \<Longrightarrow> tree_reachable f st1"

text \<open>
  The left fold of the join over a non-empty list of items,
  \<open>f (... (f (f x0 x1) x2) ...) xn\<close>, and associativity of the join.
\<close>

definition left_fold :: "('a \<Rightarrow> 'a \<Rightarrow> 'a) \<Rightarrow> 'a list \<Rightarrow> 'a" where
  "left_fold f xs = foldl f (hd xs) (tl xs)"

definition associative :: "('a \<Rightarrow> 'a \<Rightarrow> 'a) \<Rightarrow> bool" where
  "associative f = (\<forall>x y z. f (f x y) z = f x (f y z))"

text \<open>The index \<^verbatim>\<open>update\<close> and \<^verbatim>\<open>get\<close> work on after shifting a negative index by \<open>n\<close>.\<close>

definition norm_index :: "'a segtree \<Rightarrow> int \<Rightarrow> int" where
  "norm_index st ind = (if ind < 0 then ind + int (tree_n st) else ind)"

text \<open>
  The join of a list of node values with the wrapped operator, \<^verbatim>\<open>None\<close> for the empty
  list: what a node stores for the part of the array it covers.
\<close>

definition join_all :: "('a \<Rightarrow> 'a \<Rightarrow> 'a) \<Rightarrow> 'a option list \<Rightarrow> 'a option" where
  "join_all f xs = foldl (op_none f) None xs"

text \<open>An error message carries an integer when its decimal text occurs in the message.\<close>

definition mentions :: "string \<Rightarrow> int \<Rightarrow> bool" where
  "mentions msg x = sublist (py_str x) msg"

text \<open>
  The tree that \<^verbatim>\<open>Segtree([2, 4, 6, 8], lambda x,y: x+y)\<close> builds, used as a concrete
  object below.
\<close>

definition tree_2468 :: "int segtree" where
  "tree_2468 = \<lparr>tree_n = 4, tree_op = op_none (+), tree_l = 7,
      seg = [Some 20, Some 6, Some 14, Some 2, Some 4, Some 6, Some 8],
      span = [(0, 4), (0, 2), (2, 4), (0, 1), (1, 2), (2, 3), (3, 4)]\<rparr>"

section \<open>Queue: proofs\<close>

lemma transfer_eq: "transfer s1 s2 = ([], s2 @ rev s1)"
proof (induction s1 s2 rule: transfer.induct)
  case (1 s1 s2)
  show ?case
  proof (cases "s1 = []")
    case True
    then show ?thesis by (simp add: transfer.simps)
  next
    case False
    then have "transfer s1 s2 = transfer (butlast s1) (s2 @ [last s1])"
      by (subst transfer.simps) simp
    also have "\<dots> = ([], (s2 @ [last s1]) @ rev (butlast s1))"
      using 1 False by simp
    also have "(s2 @ [last s1]) @ rev (butlast s1) = s2 @ rev (butlast s1 @ [last s1])"
      by simp
    also have "butlast s1 @ [last s1] = s1"
      using False by simp
    finally show ?thesis .
  qed
qed

lemma enq_contents: "contents (enq q k) = contents q @ [k]"
  by (simp add: enq_def contents_def Let_def)

lemma enq_inv: "queue_inv q \<Longrightarrow> queue_inv (enq q k)"
  by (simp add: enq_def queue_inv_def Let_def)

lemma foldl_enq_contents: "contents (foldl enq q vs) = contents q @ vs"
  by (induction vs arbitrary: q) (simp_all add: enq_contents)

lemma foldl_enq_inv: "queue_inv q \<Longrightarrow> queue_inv (foldl enq q vs)"
  by (induction vs arbitrary: q) (simp_all add: enq_inv)

lemma deq_empty: "queue_n q = 0 \<Longrightarrow> deq q = (Inr None, q)"
  by (simp add: deq_def)

lemma deq_front:
  assumes "queue_inv q" and "contents q = x # xs"
  shows "\<exists>q1. deq q = (Inr (Some x), q1) \<and> queue_inv q1 \<and> contents q1 = xs"
proof (cases "stack_2 q = []")
  case True
  with assms(2) have s1: "stack_1 q = x # xs" by (simp add: contents_def)
  have n: "queue_n q = int (length xs) + 1"
    using assms(1) True s1 by (simp add: queue_inv_def)
  have pop: "py_pop (rev xs @ [x]) = Inr (x, rev xs)"
    by (simp add: py_pop_def)
  have "deq q = (Inr (Some x), q\<lparr>queue_n := int (length xs), stack_1 := [], stack_2 := rev xs\<rparr>)"
    using True s1 n pop by (simp add: deq_def Let_def transfer_eq)
  then show ?thesis
    by (simp add: queue_inv_def contents_def)
next
  case False
  then obtain ys y where s2: "stack_2 q = ys @ [y]"
    by (metis append_butlast_last_id)
  with assms(2) have y: "y = x" and xs: "xs = rev ys @ stack_1 q"
    by (simp_all add: contents_def)
  have n: "queue_n q \<noteq> 0"
    using assms(1) s2 by (simp add: queue_inv_def)
  have pop: "py_pop (ys @ [y]) = Inr (y, ys)"
    by (simp add: py_pop_def)
  have "deq q = (Inr (Some x), q\<lparr>queue_n := queue_n q - 1, stack_2 := ys\<rparr>)"
    using s2 n pop y by (simp add: deq_def Let_def)
  then show ?thesis
    using assms(1) s2 xs by (simp add: queue_inv_def contents_def)
qed

lemma deq_inv: "queue_inv q \<Longrightarrow> queue_inv (snd (deq q))"
proof (cases "contents q")
  case Nil
  assume "queue_inv q"
  with Nil have "queue_n q = 0" by (simp add: queue_inv_def contents_def)
  then show ?thesis using \<open>queue_inv q\<close> by (simp add: deq_empty)
next
  case (Cons x xs)
  assume "queue_inv q"
  from deq_front[OF this Cons] show ?thesis by auto
qed

lemma deq_no_error: "queue_inv q \<Longrightarrow> \<not> isl (fst (deq q))"
proof (cases "contents q")
  case Nil
  assume "queue_inv q"
  with Nil have "queue_n q = 0" by (simp add: queue_inv_def contents_def)
  then show ?thesis by (simp add: deq_empty)
next
  case (Cons x xs)
  assume "queue_inv q"
  from deq_front[OF this Cons] show ?thesis by auto
qed

lemma reachable_inv: "queue_reachable q \<Longrightarrow> queue_inv q"
proof (induction rule: queue_reachable.induct)
  case reach_init
  show ?case by (simp add: Queue_init_def queue_inv_def)
next
  case (reach_enq q k)
  then show ?case by (simp add: enq_inv)
next
  case (reach_deq q)
  then show ?case by (simp add: deq_inv)
next
  case (reach_clear q)
  show ?case by (simp add: clear_def queue_inv_def)
qed

lemma deq_times_contents:
  "queue_inv q \<Longrightarrow> length (contents q) = k \<Longrightarrow>
   fst (deq_times k q) = map (\<lambda>v. Inr (Some v)) (contents q)"
proof (induction k arbitrary: q)
  case 0
  then show ?case by simp
next
  case (Suc k)
  then obtain x xs where c: "contents q = x # xs"
    by (cases "contents q") auto
  from deq_front[OF Suc.prems(1) c] obtain q1 where
    d: "deq q = (Inr (Some x), q1)" and i: "queue_inv q1" and c1: "contents q1 = xs"
    by blast
  have "length (contents q1) = k"
    using Suc.prems(2) c c1 by simp
  from Suc.IH[OF i this] show ?case
    using d c c1 by (auto split: prod.splits)
qed

text \<open>
  C4. Starting from an empty queue, enqueueing \<open>v1, ..., vk\<close> (any \<open>k \<ge> 0\<close>) and then
  dequeueing \<open>k\<close> times returns \<open>v1, ..., vk\<close> in that order, each as a value and none
  as an exception.
\<close>

theorem queue_fifo_order:
  "fst (deq_times (length vs) (foldl enq Queue_init vs)) = map (\<lambda>v. Inr (Some v)) vs"
proof -
  have i: "queue_inv (foldl enq (Queue_init :: 'a queue) vs)"
    by (rule foldl_enq_inv) (simp add: Queue_init_def queue_inv_def)
  have c: "contents (foldl enq (Queue_init :: 'a queue) vs) = vs"
    by (simp add: foldl_enq_contents) (simp add: Queue_init_def contents_def)
  from deq_times_contents[OF i, of "length vs"] c show ?thesis by simp
qed

text \<open>
  C8. On every queue state with count 0, reachable or not, \<^verbatim>\<open>deq\<close> returns \<^verbatim>\<open>None\<close> as a
  value, not an exception, and leaves the queue as it was. On every state a caller can
  reach through \<^verbatim>\<open>__init__\<close>, \<^verbatim>\<open>enq\<close>, \<^verbatim>\<open>deq\<close> and \<^verbatim>\<open>clear\<close>, \<^verbatim>\<open>deq\<close> does not raise: its unguarded
  final pop always finds an item. \<^verbatim>\<open>enq\<close>, \<^verbatim>\<open>clear\<close> and \<^verbatim>\<open>len\<close> contain no operation
  that can raise, which is why they are total functions without an error result above.
\<close>

theorem queue_never_raises:
  "(queue_n q = 0 \<longrightarrow> deq q = (Inr None, q))
   \<and> (queue_reachable q \<longrightarrow> \<not> isl (fst (deq q)))"
  by (simp add: reachable_inv deq_no_error deq_empty)

theorem queue_never_raises_witness:
  "queue_n (clear (enq (Queue_init :: nat queue) 5)) = 0
   \<and> deq (clear (enq (Queue_init :: nat queue) 5))
       = (Inr None, clear (enq (Queue_init :: nat queue) 5))
   \<and> queue_reachable (enq (enq (Queue_init :: nat queue) 5) 7)
   \<and> \<not> isl (fst (deq (enq (enq (Queue_init :: nat queue) 5) 7)))"
proof -
  have z: "queue_n (clear (enq (Queue_init :: nat queue) 5)) = 0"
    by (simp add: clear_def)
  have r: "queue_reachable (enq (enq (Queue_init :: nat queue) 5) 7)"
    by (intro reach_enq reach_init)
  from queue_never_raises[of "clear (enq (Queue_init :: nat queue) 5)"] z
  have "deq (clear (enq (Queue_init :: nat queue) 5))
          = (Inr None, clear (enq (Queue_init :: nat queue) 5))"
    by blast
  moreover from queue_never_raises[of "enq (enq (Queue_init :: nat queue) 5) 7"] r
  have "\<not> isl (fst (deq (enq (enq (Queue_init :: nat queue) 5) 7)))"
    by blast
  ultimately show ?thesis using z r by simp
qed

section \<open>Segtree: the padding size\<close>

lemma ceil_log_2_loop_spec:
  "1 \<le> n \<Longrightarrow> \<exists>t. 2 ^ t \<le> n \<and> n < 2 ^ (t + 1)
     \<and> ceil_log_2_loop n ans ex = (ans + t, ex \<and> n = 2 ^ t)"
proof (induction n ans ex rule: ceil_log_2_loop.induct)
  case (1 n ans exact)
  show ?case
  proof (cases "n > 1")
    case False
    with 1(2) have "n = 1" by simp
    then have "2 ^ 0 \<le> n \<and> n < 2 ^ (0 + 1)
       \<and> ceil_log_2_loop n ans exact = (ans + 0, exact \<and> n = 2 ^ 0)"
      by (simp add: ceil_log_2_loop.simps)
    then show ?thesis by blast
  next
    case True
    then have "1 \<le> n div 2" by simp
    from 1(1)[OF True this] obtain t where
      lo: "2 ^ t \<le> n div 2" and hi: "n div 2 < 2 ^ (t + 1)" and
      r: "ceil_log_2_loop (n div 2) (ans + 1) (if n mod 2 = 1 then False else exact)
            = (ans + 1 + t, (if n mod 2 = 1 then False else exact) \<and> n div 2 = 2 ^ t)"
      by blast
    have a: "2 ^ (t + 1) \<le> n" using lo by simp
    have b: "n < 2 ^ (t + 1 + 1)" using hi by simp
    have c: "(n mod 2 \<noteq> 1 \<and> n div 2 = 2 ^ t) = (n = 2 ^ (t + 1))"
      by (auto simp: )
    have "ceil_log_2_loop n ans exact = (ans + (t + 1), exact \<and> n = 2 ^ (t + 1))"
      using True r c by (subst ceil_log_2_loop.simps) auto
    with a b show ?thesis by blast
  qed
qed

lemma ceil_log_2_small: "n \<le> 1 \<Longrightarrow> ceil_log_2 n = 0"
  by (simp add: ceil_log_2_def ceil_log_2_loop.simps)

lemma ceil_log_2_upper: "1 \<le> n \<Longrightarrow> n \<le> 2 ^ ceil_log_2 n"
proof -
  assume n: "1 \<le> n"
  from ceil_log_2_loop_spec[OF n, of 0 True] obtain t where
    "2 ^ t \<le> n" "n < 2 ^ (t + 1)" "ceil_log_2_loop n 0 True = (t, n = 2 ^ t)"
    by auto
  then show ?thesis by (auto simp: ceil_log_2_def)
qed

lemma ceil_log_2_lower: "1 \<le> n \<Longrightarrow> 0 < ceil_log_2 n \<Longrightarrow> 2 ^ (ceil_log_2 n - 1) < n"
proof -
  assume n: "1 \<le> n" and p: "0 < ceil_log_2 n"
  from ceil_log_2_loop_spec[OF n, of 0 True] obtain t where
    t: "2 ^ t \<le> n" "n < 2 ^ (t + 1)" "ceil_log_2_loop n 0 True = (t, n = 2 ^ t)"
    by auto
  show ?thesis
  proof (cases "n = 2 ^ t")
    case True
    with t(3) have "ceil_log_2 n = t" by (simp add: ceil_log_2_def)
    with p True show ?thesis by (cases t) auto
  next
    case False
    with t(3) have "ceil_log_2 n = t + 1" by (simp add: ceil_log_2_def)
    with t(1) False show ?thesis by simp
  qed
qed

lemma ceil_log_2_least: "1 \<le> n \<Longrightarrow> n \<le> 2 ^ m \<Longrightarrow> ceil_log_2 n \<le> m"
proof (rule ccontr)
  assume n: "1 \<le> n" and m: "n \<le> 2 ^ m" and c: "\<not> ceil_log_2 n \<le> m"
  then have p: "0 < ceil_log_2 n" and le: "m \<le> ceil_log_2 n - 1" by auto
  have pw: "(2::int) ^ m \<le> 2 ^ (ceil_log_2 n - 1)"
    using le by (rule power_increasing) simp
  from ceil_log_2_lower[OF n p] m pw show False by linarith
qed

lemma ceil_log_2_ceiling:
  assumes "1 \<le> n"
  shows "int (ceil_log_2 (int n)) = \<lceil>log 2 (real n)\<rceil>"
proof (cases "ceil_log_2 (int n)")
  case 0
  with ceil_log_2_upper[of "int n"] assms have "n = 1" by simp
  with 0 show ?thesis by simp
next
  case (Suc c)
  from ceil_log_2_lower[of "int n"] assms Suc have "2 ^ c < int n" by simp
  then have a: "2 ^ c < n" by (metis of_nat_less_iff of_nat_numeral of_nat_power)
  from ceil_log_2_upper[of "int n"] assms Suc have "int n \<le> 2 ^ (c + 1)" by simp
  then have b: "n \<le> 2 ^ (c + 1)" by (metis of_nat_le_iff of_nat_numeral of_nat_power)
  from ceiling_log_nat_eq_if[OF a b] Suc show ?thesis by simp
qed

section \<open>Segtree: construction\<close>

lemma py_get_ok: "i < length xs \<Longrightarrow> py_get xs i = Inr (xs ! i)"
  by (simp add: py_get_def)

lemma py_set_ok: "i < length xs \<Longrightarrow> py_set xs i v = Inr (xs[i := v])"
  by (simp add: py_set_def)

lemma leaves_loop_spec:
  assumes "1 \<le> k" and "length sp = length sg"
    and "\<forall>i\<in>set js. i < length a \<and> i + k - 1 < length sg"
  shows "\<exists>sg1 sp1. leaves_loop a k js (sg, sp) = Inr (sg1, sp1)
           \<and> length sg1 = length sg \<and> length sp1 = length sg
           \<and> (\<forall>i\<in>set js. sg1 ! (i + k - 1) = a ! i
                            \<and> sp1 ! (i + k - 1) = (int i, int i + 1))
           \<and> (\<forall>idx. idx \<notin> (\<lambda>i. i + k - 1) ` set js
                  \<longrightarrow> sg1 ! idx = sg ! idx \<and> sp1 ! idx = sp ! idx)"
  using assms(2,3)
proof (induction js arbitrary: sg sp)
  case Nil
  then show ?case by simp
next
  case (Cons i js)
  let ?p = "i + k - 1"
  let ?sg = "sg[?p := a ! i]"
  let ?sp = "sp[?p := (int i, int i + 1)]"
  from Cons.prems have ia: "i < length a" and ip: "?p < length sg" and ip2: "?p < length sp"
    by auto
  have step: "leaves_loop a k (i # js) (sg, sp) = leaves_loop a k js (?sg, ?sp)"
    using ia ip ip2 by (simp add: py_get_ok py_set_ok)
  have "length ?sp = length ?sg" using Cons.prems(1) by simp
  moreover have "\<forall>i\<in>set js. i < length a \<and> i + k - 1 < length ?sg"
    using Cons.prems(2) by simp
  ultimately obtain sg1 sp1 where
    r: "leaves_loop a k js (?sg, ?sp) = Inr (sg1, sp1)" and
    l1: "length sg1 = length ?sg" and l2: "length sp1 = length ?sg" and
    w: "\<forall>i\<in>set js. sg1 ! (i + k - 1) = a ! i \<and> sp1 ! (i + k - 1) = (int i, int i + 1)" and
    u: "\<forall>idx. idx \<notin> (\<lambda>i. i + k - 1) ` set js
            \<longrightarrow> sg1 ! idx = ?sg ! idx \<and> sp1 ! idx = ?sp ! idx"
    using Cons.IH[of ?sp ?sg] by blast
  have here: "sg1 ! ?p = a ! i \<and> sp1 ! ?p = (int i, int i + 1)"
  proof (cases "i \<in> set js")
    case True
    with w show ?thesis by blast
  next
    case False
    have "?p \<notin> (\<lambda>i. i + k - 1) ` set js"
    proof
      assume "?p \<in> (\<lambda>i. i + k - 1) ` set js"
      then obtain i' where "i' \<in> set js" "i + k - 1 = i' + k - 1" by auto
      with assms(1) have "i' = i" by simp
      with \<open>i' \<in> set js\<close> False show False by simp
    qed
    with u have "sg1 ! ?p = ?sg ! ?p \<and> sp1 ! ?p = ?sp ! ?p" by blast
    with ip ip2 show ?thesis by simp
  qed
  have rest: "\<forall>idx. idx \<notin> (\<lambda>i. i + k - 1) ` set (i # js)
            \<longrightarrow> sg1 ! idx = sg ! idx \<and> sp1 ! idx = sp ! idx"
  proof (intro allI impI)
    fix idx assume n: "idx \<notin> (\<lambda>i. i + k - 1) ` set (i # js)"
    then have "idx \<noteq> ?p" and "idx \<notin> (\<lambda>i. i + k - 1) ` set js" by auto
    with u show "sg1 ! idx = sg ! idx \<and> sp1 ! idx = sp ! idx" by simp
  qed
  show ?case
    using step r l1 l2 w here rest by simp
qed

lemma inner_loop_spec:
  assumes "2 * m + 1 \<le> length sg" and "length sp = length sg"
  shows "\<exists>sg1 sp1. inner_loop opn (rev [0..<m]) (sg, sp) = Inr (sg1, sp1)
           \<and> length sg1 = length sg \<and> length sp1 = length sg
           \<and> (\<forall>idx\<ge>m. sg1 ! idx = sg ! idx \<and> sp1 ! idx = sp ! idx)
           \<and> (\<forall>i<m. sg1 ! i = opn (sg1 ! (2 * i + 1)) (sg1 ! (2 * i + 2))
                    \<and> sp1 ! i = (fst (sp1 ! (2 * i + 1)), snd (sp1 ! (2 * i + 2))))"
  using assms
proof (induction m arbitrary: sg sp)
  case 0
  then show ?case by simp
next
  case (Suc m)
  let ?sg = "sg[m := opn (sg ! (2 * m + 1)) (sg ! (2 * m + 2))]"
  let ?sp = "sp[m := (fst (sp ! (2 * m + 1)), snd (sp ! (2 * m + 2)))]"
  from Suc.prems have b: "2 * m + 2 < length sg" "2 * m + 1 < length sg" "m < length sg"
    "2 * m + 2 < length sp" "2 * m + 1 < length sp" "m < length sp"
    by auto
  have step: "inner_loop opn (rev [0..<Suc m]) (sg, sp) = inner_loop opn (rev [0..<m]) (?sg, ?sp)"
    using b by (simp add: py_get_ok py_set_ok)
  have "2 * m + 1 \<le> length ?sg" "length ?sp = length ?sg"
    using Suc.prems by auto
  from Suc.IH[OF this] obtain sg1 sp1 where
    r: "inner_loop opn (rev [0..<m]) (?sg, ?sp) = Inr (sg1, sp1)" and
    l1: "length sg1 = length ?sg" and l2: "length sp1 = length ?sg" and
    u: "\<forall>idx\<ge>m. sg1 ! idx = ?sg ! idx \<and> sp1 ! idx = ?sp ! idx" and
    w: "\<forall>i<m. sg1 ! i = opn (sg1 ! (2 * i + 1)) (sg1 ! (2 * i + 2))
              \<and> sp1 ! i = (fst (sp1 ! (2 * i + 1)), snd (sp1 ! (2 * i + 2)))"
    by blast
  have keep: "\<forall>idx\<ge>Suc m. sg1 ! idx = sg ! idx \<and> sp1 ! idx = sp ! idx"
    using u by auto
  have c1: "sg1 ! (2 * m + 1) = sg ! (2 * m + 1)" "sp1 ! (2 * m + 1) = sp ! (2 * m + 1)"
    and c2: "sg1 ! (2 * m + 2) = sg ! (2 * m + 2)" "sp1 ! (2 * m + 2) = sp ! (2 * m + 2)"
    using keep by auto
  have "sg1 ! m = ?sg ! m" "sp1 ! m = ?sp ! m" using u by auto
  then have here: "sg1 ! m = opn (sg1 ! (2 * m + 1)) (sg1 ! (2 * m + 2))
              \<and> sp1 ! m = (fst (sp1 ! (2 * m + 1)), snd (sp1 ! (2 * m + 2)))"
    using b c1 c2 by simp
  have all: "\<forall>i<Suc m. sg1 ! i = opn (sg1 ! (2 * i + 1)) (sg1 ! (2 * i + 2))
                    \<and> sp1 ! i = (fst (sp1 ! (2 * i + 1)), snd (sp1 ! (2 * i + 2)))"
    using w here less_Suc_eq by auto
  show ?case
    using step r l1 l2 keep all by simp
qed

lemma length_le_pow: "length a \<le> 2 ^ ceil_log_2 (int (length a))"
proof (cases "length a = 0")
  case True
  then show ?thesis by simp
next
  case False
  then have "1 \<le> int (length a)" by (cases a) simp_all
  from ceil_log_2_upper[OF this]
  have "int (length a) \<le> int (2 ^ ceil_log_2 (int (length a)))" by simp
  then show ?thesis by (simp only: of_nat_le_iff)
qed

lemma tree_l_half: "(2 * 2 ^ h - 1) div 2 = (2::nat) ^ h - 1"
proof -
  have "(1::nat) \<le> 2 ^ h" by simp
  then show ?thesis by arith
qed

lemma segtree_init_spec:
  "\<exists>st. segtree_init a f = Inr st
        \<and> tree_inv f (ceil_log_2 (int (length a))) st
        \<and> tree_n st = length a \<and> arr st = a"
proof -
  define n where "n = length a"
  define h where "h = ceil_log_2 (int n)"
  define k :: nat where "k = 2 ^ h"
  define l where "l = 2 * k - 1"
  have nk: "n \<le> k" unfolding k_def h_def n_def by (rule length_le_pow)
  have k1: "1 \<le> k" unfolding k_def by simp
  let ?sg0 = "replicate l (None :: 'a option)"
  let ?sp0 = "replicate l (int n, int n)"
  have "length ?sp0 = length ?sg0" by simp
  moreover have "\<forall>i\<in>set [0..<n]. i < length a \<and> i + k - 1 < length ?sg0"
    using nk k1 by (auto simp: n_def l_def)
  ultimately obtain sg1 sp1 where
    r1: "leaves_loop a k [0..<n] (?sg0, ?sp0) = Inr (sg1, sp1)" and
    l1: "length sg1 = l" "length sp1 = l" and
    w1: "\<forall>i\<in>set [0..<n]. sg1 ! (i + k - 1) = a ! i \<and> sp1 ! (i + k - 1) = (int i, int i + 1)" and
    u1: "\<forall>idx. idx \<notin> (\<lambda>i. i + k - 1) ` set [0..<n]
            \<longrightarrow> sg1 ! idx = ?sg0 ! idx \<and> sp1 ! idx = ?sp0 ! idx"
    using leaves_loop_spec[OF k1, of ?sp0 ?sg0 "[0..<n]" a] by auto
  have "2 * (k - 1) + 1 \<le> length sg1" "length sp1 = length sg1"
    using l1 k1 by (auto simp: l_def)
  from inner_loop_spec[OF this, of "op_none f"] obtain sg2 sp2 where
    r2: "inner_loop (op_none f) (rev [0..<k - 1]) (sg1, sp1) = Inr (sg2, sp2)" and
    l2: "length sg2 = l" "length sp2 = l" and
    u2: "\<forall>idx\<ge>k - 1. sg2 ! idx = sg1 ! idx \<and> sp2 ! idx = sp1 ! idx" and
    w2: "\<forall>i<k - 1. sg2 ! i = op_none f (sg2 ! (2 * i + 1)) (sg2 ! (2 * i + 2))
                \<and> sp2 ! i = (fst (sp2 ! (2 * i + 1)), snd (sp2 ! (2 * i + 2)))"
    using l1 by auto
  define st where
    "st = \<lparr>tree_n = n, tree_op = op_none f, tree_l = l, seg = sg2, span = sp2\<rparr>"
  have init: "segtree_init a f = Inr st"
    using r1 r2 unfolding segtree_init_def Let_def st_def l_def k_def h_def n_def
    by simp
  have real_leaf: "sg2 ! (k - 1 + j) = a ! j \<and> sp2 ! (k - 1 + j) = (int j, int j + 1)"
    if "j < n" for j
  proof -
    have "sg2 ! (k - 1 + j) = sg1 ! (k - 1 + j) \<and> sp2 ! (k - 1 + j) = sp1 ! (k - 1 + j)"
      using u2 by simp
    moreover have "k - 1 + j = j + k - 1" using k1 by simp
    ultimately show ?thesis using w1 that by simp
  qed
  have pad_leaf: "sg2 ! (k - 1 + j) = None \<and> sp2 ! (k - 1 + j) = (int n, int n)"
    if "n \<le> j" "j < k" for j
  proof -
    have a: "sg2 ! (k - 1 + j) = sg1 ! (k - 1 + j) \<and> sp2 ! (k - 1 + j) = sp1 ! (k - 1 + j)"
      using u2 by simp
    have "k - 1 + j \<notin> (\<lambda>i. i + k - 1) ` set [0..<n]"
      using that k1 by auto
    with u1 have b: "sg1 ! (k - 1 + j) = ?sg0 ! (k - 1 + j) \<and> sp1 ! (k - 1 + j) = ?sp0 ! (k - 1 + j)"
      by blast
    have "k - 1 + j < l" using that k1 by (simp add: l_def)
    with a b show ?thesis by simp
  qed
  have leaf_span: "\<forall>j<k. sp2 ! (k - 1 + j) = (int (min j n), int (min (j + 1) n))"
  proof (intro allI impI)
    fix j assume "j < k"
    show "sp2 ! (k - 1 + j) = (int (min j n), int (min (j + 1) n))"
    proof (cases "j < n")
      case True
      with real_leaf[OF True] show ?thesis by (simp add: min_def)
    next
      case False
      with pad_leaf[of j] \<open>j < k\<close> show ?thesis by (simp add: min_def)
    qed
  qed
  have inv: "tree_inv f h st"
    unfolding tree_inv_def
    using nk l2 w2 leaf_span pad_leaf
    by (simp add: st_def l_def k_def)
  have "arr st = take n (drop (k - 1) sg2)"
    using tree_l_half[of h] by (simp add: arr_def py_slice_def st_def l_def k_def)
  also have "\<dots> = a"
  proof (rule nth_equalityI)
    show "length (take n (drop (k - 1) sg2)) = length a"
      using l2 nk k1 by (simp add: l_def n_def)
  next
    fix i assume "i < length (take n (drop (k - 1) sg2))"
    then have "i < n" by simp
    then have "take n (drop (k - 1) sg2) ! i = sg2 ! (k - 1 + i)"
      using l2 nk k1 by (simp add: l_def)
    with real_leaf[OF \<open>i < n\<close>] show "take n (drop (k - 1) sg2) ! i = a ! i" by simp
  qed
  finally have "arr st = a" .
  with init inv show ?thesis
    by (auto simp: st_def h_def n_def)
qed

section \<open>Segtree: update\<close>

lemma update_loop_spec:
  assumes "length sg = 2 * 2 ^ h - 1" and "i < length sg"
    and "\<forall>p < 2 ^ h - 1. (i = 0 \<or> p \<noteq> (i - 1) div 2)
            \<longrightarrow> sg ! p = opn (sg ! (2 * p + 1)) (sg ! (2 * p + 2))"
  shows "\<exists>sg1. update_loop opn sg i = (Inr (), sg1) \<and> length sg1 = length sg
           \<and> (\<forall>p < 2 ^ h - 1. sg1 ! p = opn (sg1 ! (2 * p + 1)) (sg1 ! (2 * p + 2)))
           \<and> (\<forall>idx \<ge> 2 ^ h - 1. sg1 ! idx = sg ! idx)"
  using assms
proof (induction opn sg i rule: update_loop.induct)
  case (1 opn sg i)
  show ?case
  proof (cases "i > 0")
    case False
    then have "update_loop opn sg i = (Inr (), sg)"
      by (simp add: update_loop.simps)
    with False "1.prems"(3) show ?thesis by simp
  next
    case True
    define p where "p = (i - 1) div 2"
    define sg' where "sg' = sg[p := opn (sg ! (2 * p + 1)) (sg ! (2 * p + 2))]"
    have pk: "p < 2 ^ h - 1" using "1.prems"(1,2) True unfolding p_def by arith
    have b: "2 * p + 1 < length sg" "2 * p + 2 < length sg" "p < length sg"
      using pk "1.prems"(1) by arith+
    have step: "update_loop opn sg i = update_loop opn sg' p"
      using True b unfolding sg'_def p_def
      by (subst update_loop.simps) (simp add: Let_def py_get_ok py_set_ok)
    have len: "length sg' = 2 * 2 ^ h - 1" "p < length sg'"
      using "1.prems"(1) b by (simp_all add: sg'_def)
    have pre: "\<forall>q < 2 ^ h - 1. (p = 0 \<or> q \<noteq> (p - 1) div 2)
            \<longrightarrow> sg' ! q = opn (sg' ! (2 * q + 1)) (sg' ! (2 * q + 2))"
    proof (intro allI impI)
      fix q assume q: "q < 2 ^ h - 1" and e: "p = 0 \<or> q \<noteq> (p - 1) div 2"
      have n1: "2 * q + 1 \<noteq> p" and n2: "2 * q + 2 \<noteq> p" using e by auto
      have c: "sg' ! (2 * q + 1) = sg ! (2 * q + 1)" "sg' ! (2 * q + 2) = sg ! (2 * q + 2)"
        using n1 n2 by (simp_all add: sg'_def)
      show "sg' ! q = opn (sg' ! (2 * q + 1)) (sg' ! (2 * q + 2))"
      proof (cases "q = p")
        case True
        then show ?thesis using b c by (simp add: sg'_def)
      next
        case False
        then have "sg' ! q = sg ! q" by (simp add: sg'_def)
        moreover have "sg ! q = opn (sg ! (2 * q + 1)) (sg ! (2 * q + 2))"
          using "1.prems"(3) q False True by (simp add: p_def)
        ultimately show ?thesis using c by simp
      qed
    qed
    have g1: "py_get sg (2 * p + 1) = Inr (sg ! (2 * p + 1))"
      and g2: "py_get sg (2 * p + 2) = Inr (sg ! (2 * p + 2))"
      and s: "py_set sg p (opn (sg ! (2 * p + 1)) (sg ! (2 * p + 2))) = Inr sg'"
      using b by (simp_all add: py_get_ok py_set_ok sg'_def)
    have "\<exists>sg1. update_loop opn sg' p = (Inr (), sg1) \<and> length sg1 = length sg'
           \<and> (\<forall>p < 2 ^ h - 1. sg1 ! p = opn (sg1 ! (2 * p + 1)) (sg1 ! (2 * p + 2)))
           \<and> (\<forall>idx \<ge> 2 ^ h - 1. sg1 ! idx = sg' ! idx)"
      by (rule "1.IH"[OF True p_def g1 g2 s len pre])
    then obtain sg1 where
      r: "update_loop opn sg' p = (Inr (), sg1)" and l: "length sg1 = length sg'" and
      w: "\<forall>p < 2 ^ h - 1. sg1 ! p = opn (sg1 ! (2 * p + 1)) (sg1 ! (2 * p + 2))" and
      u: "\<forall>idx \<ge> 2 ^ h - 1. sg1 ! idx = sg' ! idx"
      by blast
    have "\<forall>idx \<ge> 2 ^ h - 1. sg1 ! idx = sg ! idx"
      using u pk by (simp add: sg'_def)
    with step r l w len "1.prems"(1) show ?thesis by simp
  qed
qed

lemma norm_index_range:
  "- int (tree_n st) \<le> ind \<Longrightarrow> ind < int (tree_n st)
   \<Longrightarrow> 0 \<le> norm_index st ind \<and> norm_index st ind < int (tree_n st)"
  by (simp add: norm_index_def)

lemma arr_inv:
  assumes "tree_inv f h st"
  shows "arr st = take (tree_n st) (drop (2 ^ h - 1) (seg st))"
    and "length (arr st) = tree_n st"
    and "j < tree_n st \<Longrightarrow> arr st ! j = seg st ! (2 ^ h - 1 + j)"
proof -
  have l: "tree_l st = 2 * 2 ^ h - 1" "tree_n st \<le> 2 ^ h" "length (seg st) = 2 * 2 ^ h - 1"
    using assms by (simp_all add: tree_inv_def)
  show a: "arr st = take (tree_n st) (drop (2 ^ h - 1) (seg st))"
    using tree_l_half[of h] l(1) by (simp add: arr_def py_slice_def)
  show "length (arr st) = tree_n st"
    using l(2,3) by (simp add: a)
  show "j < tree_n st \<Longrightarrow> arr st ! j = seg st ! (2 ^ h - 1 + j)"
    using l(2,3) by (simp add: a)
qed

lemma update_ok:
  assumes inv: "tree_inv f h st"
    and lo: "- int (tree_n st) \<le> ind" and hi: "ind < int (tree_n st)"
  shows "\<exists>sg1. update st ind v = (Inr (), st\<lparr>seg := sg1\<rparr>)
           \<and> tree_inv f h (st\<lparr>seg := sg1\<rparr>)
           \<and> arr (st\<lparr>seg := sg1\<rparr>) = (arr st)[nat (norm_index st ind) := v]"
proof -
  define j where "j = nat (norm_index st ind)"
  define k :: nat where "k = 2 ^ h - 1"
  define sg0 where "sg0 = (seg st)[k + j := v]"
  have l: "tree_l st = 2 * 2 ^ h - 1" "tree_n st \<le> 2 ^ h" "length (seg st) = 2 * 2 ^ h - 1"
    and op: "tree_op st = op_none f"
    and nodes: "\<forall>i < 2 ^ h - 1. seg st ! i = tree_op st (seg st ! (2 * i + 1)) (seg st ! (2 * i + 2))"
    and pads: "\<forall>j < 2 ^ h. tree_n st \<le> j \<longrightarrow> seg st ! (2 ^ h - 1 + j) = None"
    using inv by (simp_all add: tree_inv_def)
  have jn: "j < tree_n st"
    using norm_index_range[OF lo hi] unfolding j_def by linarith
  have half: "tree_l st div 2 = k"
    using tree_l_half[of h] l(1) by (simp add: k_def)
  have kj: "k + j < length (seg st)"
    using jn l(2,3) unfolding k_def by arith
  have len0: "length sg0 = 2 * 2 ^ h - 1" "k + j < length sg0"
    using l(3) kj by (simp_all add: sg0_def)
  have pre: "\<forall>p < 2 ^ h - 1. (k + j = 0 \<or> p \<noteq> (k + j - 1) div 2)
            \<longrightarrow> sg0 ! p = tree_op st (sg0 ! (2 * p + 1)) (sg0 ! (2 * p + 2))"
  proof (intro allI impI)
    fix p assume p: "p < 2 ^ h - 1" and e: "k + j = 0 \<or> p \<noteq> (k + j - 1) div 2"
    have "p \<noteq> k + j" using p by (simp add: k_def)
    moreover have "2 * p + 1 \<noteq> k + j" "2 * p + 2 \<noteq> k + j"
      using e p by (auto simp: k_def)
    ultimately have "sg0 ! p = seg st ! p" "sg0 ! (2 * p + 1) = seg st ! (2 * p + 1)"
      "sg0 ! (2 * p + 2) = seg st ! (2 * p + 2)"
      by (simp_all add: sg0_def)
    with nodes p show "sg0 ! p = tree_op st (sg0 ! (2 * p + 1)) (sg0 ! (2 * p + 2))"
      by simp
  qed
  from update_loop_spec[OF len0 pre] obtain sg1 where
    r: "update_loop (tree_op st) sg0 (k + j) = (Inr (), sg1)" and
    l1: "length sg1 = length sg0" and
    w: "\<forall>p < 2 ^ h - 1. sg1 ! p = tree_op st (sg1 ! (2 * p + 1)) (sg1 ! (2 * p + 2))" and
    u: "\<forall>idx \<ge> 2 ^ h - 1. sg1 ! idx = sg0 ! idx"
    by blast
  have "\<not> (ind \<ge> int (tree_n st) \<or> ind < - int (tree_n st))"
    using lo hi by simp
  then have upd: "update st ind v = (Inr (), st\<lparr>seg := sg1\<rparr>)"
    using r kj half
    by (simp add: update_def Let_def py_set_ok j_def norm_index_def sg0_def)
  have leaf: "sg1 ! (k + i) = (if i = j then v else seg st ! (k + i))" for i
  proof -
    have "2 ^ h - 1 \<le> k + i" by (simp add: k_def)
    with u have "sg1 ! (k + i) = sg0 ! (k + i)" by blast
    also have "\<dots> = (if i = j then v else seg st ! (k + i))"
      using kj unfolding sg0_def by (simp add: nth_list_update)
    finally show ?thesis .
  qed
  have pads1: "\<forall>i < 2 ^ h. tree_n st \<le> i \<longrightarrow> sg1 ! (2 ^ h - 1 + i) = None"
    using pads leaf jn unfolding k_def[symmetric] by auto
  have inv1: "tree_inv f h (st\<lparr>seg := sg1\<rparr>)"
    using inv l1 len0 w pads1 by (simp add: tree_inv_def)
  have "arr (st\<lparr>seg := sg1\<rparr>) = (arr st)[j := v]"
  proof (rule nth_equalityI)
    show "length (arr (st\<lparr>seg := sg1\<rparr>)) = length ((arr st)[j := v])"
      using arr_inv(2)[OF inv1] arr_inv(2)[OF inv] by simp
  next
    fix i assume "i < length (arr (st\<lparr>seg := sg1\<rparr>))"
    then have i: "i < tree_n st" using arr_inv(2)[OF inv1] by simp
    have "arr (st\<lparr>seg := sg1\<rparr>) ! i = sg1 ! (k + i)"
      using arr_inv(3)[OF inv1, of i] i unfolding k_def by simp
    also have "\<dots> = (if i = j then v else seg st ! (k + i))" by (rule leaf)
    also have "\<dots> = (arr st)[j := v] ! i"
      using arr_inv(2)[OF inv] arr_inv(3)[OF inv, of i] i jn unfolding k_def
      by (simp add: nth_list_update)
    finally show "arr (st\<lparr>seg := sg1\<rparr>) ! i = (arr st)[j := v] ! i" .
  qed
  with upd inv1 show ?thesis by (auto simp: j_def)
qed

section \<open>Segtree: what every node stores\<close>

lemma reachable_tree_inv:
  "tree_reachable f st \<Longrightarrow> tree_inv f (ceil_log_2 (int (tree_n st))) st"
proof (induction rule: tree_reachable.induct)
  case (reach_build a f st)
  with segtree_init_spec[of a f] show ?case by auto
next
  case (reach_update f st ind val st1)
  have r: "- int (tree_n st) \<le> ind \<and> ind < int (tree_n st)"
  proof (rule ccontr)
    assume "\<not> ?thesis"
    then have "isl (fst (update st ind val))" by (auto simp: update_def)
    with reach_update.hyps(2) show False by simp
  qed
  from update_ok[OF reach_update.IH, of ind val] r obtain sg1 where
    "update st ind val = (Inr (), st\<lparr>seg := sg1\<rparr>)"
    "tree_inv f (ceil_log_2 (int (tree_n st))) (st\<lparr>seg := sg1\<rparr>)"
    by blast
  with reach_update.hyps(2) show ?case by auto
qed

lemma node_at_root: "node_at h 0 h 0"
  by (simp add: node_at_def)

lemma node_at_leaf: "node_at h i 0 lo \<longleftrightarrow> i = 2 ^ h - 1 + lo \<and> lo < 2 ^ h"
  by (auto simp: node_at_def)

lemma node_at_left: "node_at h i (Suc j) lo \<Longrightarrow> node_at h (2 * i + 1) j lo"
  by (auto simp: node_at_def algebra_simps)

lemma node_at_right: "node_at h i (Suc j) lo \<Longrightarrow> node_at h (2 * i + 2) j (lo + 2 ^ j)"
  by (auto simp: node_at_def algebra_simps)

lemma node_at_internal:
  assumes "node_at h i (Suc j) lo"
  shows "i < 2 ^ h - 1"
proof -
  from assms have e: "(i + 1) * (2 * 2 ^ j) = lo + 2 ^ h" and b: "lo + 2 * 2 ^ j \<le> 2 ^ h"
    by (simp_all add: node_at_def)
  have "(1::nat) \<le> 2 ^ j" by simp
  then have "(i + 1) * 2 \<le> (i + 1) * (2 * 2 ^ j)"
    by (intro mult_le_mono2) simp
  with e have s1: "(i + 1) * 2 \<le> lo + 2 ^ h" by (simp only:)
  from b \<open>1 \<le> 2 ^ j\<close> have s2: "lo + 2 \<le> 2 ^ h" by linarith
  from s1 s2 show ?thesis by arith
qed

lemma node_at_index:
  assumes "node_at h i j lo"
  shows "i < 2 * 2 ^ h - 1"
proof -
  from assms have e: "(i + 1) * 2 ^ j = lo + 2 ^ h" and b: "lo + 2 ^ j \<le> 2 ^ h"
    by (simp_all add: node_at_def)
  have "(1::nat) \<le> 2 ^ j" by simp
  then have "(i + 1) * 1 \<le> (i + 1) * 2 ^ j" by (rule mult_le_mono2)
  with e have s1: "i + 1 \<le> lo + 2 ^ h" by (simp only: mult_1_right)
  from b \<open>1 \<le> 2 ^ j\<close> have s2: "lo + 1 \<le> 2 ^ h" by linarith
  from s1 s2 show ?thesis by arith
qed

lemma span_node:
  assumes "tree_inv f h st" and "node_at h i j lo"
  shows "span st ! i = (int (min lo (tree_n st)), int (min (lo + 2 ^ j) (tree_n st)))"
  using assms(2)
proof (induction j arbitrary: i lo)
  case 0
  then have "i = 2 ^ h - 1 + lo" "lo < 2 ^ h" by (simp_all add: node_at_leaf)
  with assms(1) show ?case by (simp add: tree_inv_def)
next
  case (Suc j)
  have "span st ! i = (fst (span st ! (2 * i + 1)), snd (span st ! (2 * i + 2)))"
    using assms(1) node_at_internal[OF Suc.prems] by (simp add: tree_inv_def)
  with Suc.IH[OF node_at_left[OF Suc.prems]] Suc.IH[OF node_at_right[OF Suc.prems]]
  show ?case by (simp add: add.assoc)
qed

lemma op_none_None [simp]: "op_none f None x = x" "op_none f x None = x"
  by (auto simp: op_none_def)

lemma op_none_Some [simp]: "op_none f (Some x) (Some y) = Some (f x y)"
  by (simp add: op_none_def)

lemma op_none_assoc:
  "associative f \<Longrightarrow> op_none f (op_none f x y) z = op_none f x (op_none f y z)"
  by (cases x; cases y; cases z) (simp_all add: associative_def)

lemma foldl_op_none:
  "associative f \<Longrightarrow> foldl (op_none f) (op_none f a b) ys = op_none f a (foldl (op_none f) b ys)"
  by (induction ys arbitrary: b) (simp_all add: op_none_assoc)

lemma join_all_append:
  assumes "associative f"
  shows "join_all f (xs @ ys) = op_none f (join_all f xs) (join_all f ys)"
proof -
  have "join_all f (xs @ ys) = foldl (op_none f) (op_none f (join_all f xs) None) ys"
    by (simp add: join_all_def)
  also have "\<dots> = op_none f (join_all f xs) (join_all f ys)"
    unfolding join_all_def by (rule foldl_op_none[OF assms])
  finally show ?thesis .
qed

lemma join_all_simps [simp]: "join_all f [] = None" "join_all f [x] = x"
  by (simp_all add: join_all_def)

lemma foldl_Some: "foldl (op_none f) (Some x) (map Some ys) = Some (foldl f x ys)"
  by (induction ys arbitrary: x) simp_all

lemma join_all_Some: "xs \<noteq> [] \<Longrightarrow> join_all f (map Some xs) = Some (left_fold f xs)"
  by (cases xs) (simp_all add: join_all_def left_fold_def foldl_Some)

lemma py_slice_append:
  "a \<le> b \<Longrightarrow> b \<le> c \<Longrightarrow> py_slice xs a b @ py_slice xs b c = py_slice xs a c"
proof -
  assume ab: "a \<le> b" and bc: "b \<le> c"
  have "py_slice xs a c = take ((b - a) + (c - b)) (drop a xs)"
    using ab bc by (simp add: py_slice_def)
  also have "\<dots> = take (b - a) (drop a xs) @ take (c - b) (drop (b - a) (drop a xs))"
    by (rule take_add)
  also have "drop (b - a) (drop a xs) = drop b xs"
    using ab by simp
  finally show ?thesis by (simp add: py_slice_def)
qed

lemma py_slice_empty [simp]: "py_slice xs a a = []"
  by (simp add: py_slice_def)

lemma py_slice_single: "a < length xs \<Longrightarrow> py_slice xs a (a + 1) = [xs ! a]"
  by (simp add: py_slice_def take_Suc_conv_app_nth[of 0, simplified] hd_drop_conv_nth take_Suc)

lemma py_slice_map: "py_slice (map g xs) a b = map g (py_slice xs a b)"
  by (simp add: py_slice_def take_map drop_map)

section \<open>Segtree: the query recursion\<close>

lemma seg_node:
  assumes "tree_inv f h st" and "associative f" and "node_at h i j lo"
  shows "seg st ! i = join_all f (py_slice (arr st) (min lo (tree_n st))
                                                   (min (lo + 2 ^ j) (tree_n st)))"
  using assms(3)
proof (induction j arbitrary: i lo)
  case 0
  then have i: "i = 2 ^ h - 1 + lo" and lo: "lo < 2 ^ h" by (simp_all add: node_at_leaf)
  show ?case
  proof (cases "lo < tree_n st")
    case True
    then have "py_slice (arr st) lo (lo + 1) = [arr st ! lo]"
      using arr_inv(2)[OF assms(1)] py_slice_single[of lo "arr st"] by simp
    with True arr_inv(3)[OF assms(1) True] i show ?thesis by (simp add: min_def)
  next
    case False
    then have "seg st ! i = None" using assms(1) i lo by (simp add: tree_inv_def)
    with False show ?thesis by (simp add: min_def)
  qed
next
  case (Suc j)
  let ?n = "tree_n st"
  let ?a = "min lo ?n" and ?b = "min (lo + 2 ^ j) ?n" and ?c = "min (lo + 2 ^ Suc j) ?n"
  have e: "lo + 2 ^ j + 2 ^ j = lo + 2 ^ Suc j" by simp
  have "seg st ! i = op_none f (seg st ! (2 * i + 1)) (seg st ! (2 * i + 2))"
    using assms(1) node_at_internal[OF Suc.prems] by (simp add: tree_inv_def)
  also have "seg st ! (2 * i + 1) = join_all f (py_slice (arr st) ?a ?b)"
    by (rule Suc.IH[OF node_at_left[OF Suc.prems]])
  also have "seg st ! (2 * i + 2) = join_all f (py_slice (arr st) ?b ?c)"
    using Suc.IH[OF node_at_right[OF Suc.prems]] unfolding e .
  also have "op_none f (join_all f (py_slice (arr st) ?a ?b)) (join_all f (py_slice (arr st) ?b ?c))
             = join_all f (py_slice (arr st) ?a ?b @ py_slice (arr st) ?b ?c)"
    by (rule join_all_append[OF assms(2), symmetric])
  also have "py_slice (arr st) ?a ?b @ py_slice (arr st) ?b ?c = py_slice (arr st) ?a ?c"
    by (rule py_slice_append) simp_all
  finally show ?case .
qed

lemma help_me_query_ok:
  assumes inv: "tree_inv f h st"
    and n: "node_at h i j lo"
    and b: "int (min lo (tree_n st)) \<le> L" "L < R" "R \<le> int (min (lo + 2 ^ j) (tree_n st))"
  shows "\<exists>r. help_me_query st L R i = Inr r
           \<and> (associative f \<longrightarrow> r = join_all f (py_slice (arr st) (nat L) (nat R)))"
  using n b
proof (induction j arbitrary: i lo L R)
  case 0
  have len: "i < length (span st)" "i < length (seg st)"
    using node_at_index[OF "0.prems"(1)] inv by (simp_all add: tree_inv_def)
  have sp: "span st ! i = (int (min lo (tree_n st)), int (min (lo + 1) (tree_n st)))"
    using span_node[OF inv "0.prems"(1)] by simp
  have eq: "L = int (min lo (tree_n st))" "R = int (min (lo + 1) (tree_n st))"
    using "0.prems"(2,3,4) by (auto simp: min_def split: if_splits)
  have "help_me_query st L R i = Inr (seg st ! i)"
    using len sp eq by (subst help_me_query.simps) (simp add: py_get_ok)
  moreover have "associative f \<longrightarrow> seg st ! i = join_all f (py_slice (arr st) (nat L) (nat R))"
    using seg_node[OF inv _ "0.prems"(1)] eq by simp
  ultimately show ?case by blast
next
  case (Suc j)
  let ?n = "tree_n st"
  let ?a = "min lo ?n" and ?b = "min (lo + 2 ^ j) ?n" and ?c = "min (lo + 2 ^ Suc j) ?n"
  note nl = node_at_left[OF Suc.prems(1)] and nr = node_at_right[OF Suc.prems(1)]
  have len: "i < length (span st)" "i < length (seg st)"
    "2 * i + 1 < length (span st)" "2 * i + 2 < length (span st)"
    using node_at_index[OF Suc.prems(1)] node_at_index[OF nl] node_at_index[OF nr] inv
    by (simp_all add: tree_inv_def)
  have sp: "span st ! i = (int ?a, int ?c)"
    using span_node[OF inv Suc.prems(1)] by simp
  have spl: "span st ! (2 * i + 1) = (int ?a, int ?b)"
    using span_node[OF inv nl] by simp
  have spr: "span st ! (2 * i + 2) = (int ?b, int ?c)"
    using span_node[OF inv nr] by (simp add: add.assoc)
  have op: "tree_op st = op_none f" using inv by (simp add: tree_inv_def)
  show ?case
  proof (cases "L = int ?a \<and> R = int ?c")
    case True
    have "help_me_query st L R i = Inr (seg st ! i)"
      using len sp True by (subst help_me_query.simps) (simp add: py_get_ok)
    moreover have "associative f \<longrightarrow> seg st ! i = join_all f (py_slice (arr st) (nat L) (nat R))"
      using seg_node[OF inv _ Suc.prems(1)] True by simp
    ultimately show ?thesis by blast
  next
    case False
    then have ne: "\<not> (L = fst (span st ! i) \<and> R = snd (span st ! i))" using sp by simp
    have unfold: "help_me_query st L R i =
        (if R \<le> int ?b then help_me_query st L R (2 * i + 1)
         else if L \<ge> int ?b then help_me_query st L R (2 * i + 2)
         else (case help_me_query st L (int ?b) (2 * i + 1) of Inl e \<Rightarrow> Inl e | Inr ans_L \<Rightarrow>
               (case help_me_query st (int ?b) R (2 * i + 2) of Inl e \<Rightarrow> Inl e | Inr ans_R \<Rightarrow>
                  Inr (tree_op st ans_L ans_R))))"
      using len spl spr
      by (subst help_me_query.simps) (simp add: ne py_get_ok Let_def)
    show ?thesis
    proof (cases "R \<le> int ?b")
      case True
      from Suc.IH[OF nl Suc.prems(2,3) True] unfold True show ?thesis by simp
    next
      case nR: False
      show ?thesis
      proof (cases "L \<ge> int ?b")
        case True
        have "R \<le> int (min (lo + 2 ^ j + 2 ^ j) ?n)" using Suc.prems(4) by simp
        from Suc.IH[OF nr True Suc.prems(3) this] unfold nR True show ?thesis by simp
      next
        case nL: False
        then have lb: "L < int ?b" and br: "int ?b < R" using nR by simp_all
        from Suc.IH[OF nl Suc.prems(2) lb] obtain r1 where
          r1: "help_me_query st L (int ?b) (2 * i + 1) = Inr r1"
              "associative f \<longrightarrow> r1 = join_all f (py_slice (arr st) (nat L) (nat (int ?b)))"
          by auto
        have "R \<le> int (min (lo + 2 ^ j + 2 ^ j) ?n)" using Suc.prems(4) by simp
        from Suc.IH[OF nr _ br this] obtain r2 where
          r2: "help_me_query st (int ?b) R (2 * i + 2) = Inr r2"
              "associative f \<longrightarrow> r2 = join_all f (py_slice (arr st) (nat (int ?b)) (nat R))"
          by auto
        have res: "help_me_query st L R i = Inr (op_none f r1 r2)"
          using unfold nR nL r1(1) r2(1) op by simp
        have "associative f \<longrightarrow> op_none f r1 r2 = join_all f (py_slice (arr st) (nat L) (nat R))"
        proof
          assume a: "associative f"
          have "nat L \<le> ?b" "?b \<le> nat R" using lb br by linarith+
          then have "py_slice (arr st) (nat L) ?b @ py_slice (arr st) ?b (nat R)
                     = py_slice (arr st) (nat L) (nat R)"
            by (rule py_slice_append)
          then show "op_none f r1 r2 = join_all f (py_slice (arr st) (nat L) (nat R))"
            using r1(2) r2(2) a join_all_append[OF a, of "py_slice (arr st) (nat L) ?b"
                "py_slice (arr st) ?b (nat R)"]
            by simp
        qed
        with res show ?thesis by blast
      qed
    qed
  qed
qed

section \<open>Segtree: the public methods\<close>

lemma query_ok:
  assumes "tree_inv f h st" and "0 \<le> L" and "L < R" and "R \<le> int (tree_n st)"
  shows "\<exists>r. query st L R = Inr r
           \<and> (associative f \<longrightarrow> r = join_all f (py_slice (arr st) (nat L) (nat R)))"
proof -
  have n: "tree_n st \<le> 2 ^ h" using assms(1) by (simp add: tree_inv_def)
  have a: "int (min 0 (tree_n st)) \<le> L" using assms(2) by simp
  have b: "R \<le> int (min (0 + 2 ^ h) (tree_n st))" using assms(4) n by (simp add: min_def)
  have "query st L R = help_me_query st L R 0"
    using assms(2,3,4) by (simp add: query_def)
  with help_me_query_ok[OF assms(1) node_at_root a assms(3) b] show ?thesis by simp
qed

lemma get_ok:
  assumes "tree_inv f h st" and "- int (tree_n st) \<le> ind" and "ind < int (tree_n st)"
  shows "get st ind = Inr (arr st ! nat (norm_index st ind))"
proof -
  define j where "j = nat (norm_index st ind)"
  have jn: "j < tree_n st"
    using norm_index_range[OF assms(2,3)] unfolding j_def by linarith
  have l: "tree_l st = 2 * 2 ^ h - 1" "tree_n st \<le> 2 ^ h" "length (seg st) = 2 * 2 ^ h - 1"
    using assms(1) by (simp_all add: tree_inv_def)
  have half: "tree_l st div 2 = 2 ^ h - 1"
    using tree_l_half[of h] l(1) by simp
  have kj: "2 ^ h - 1 + j < length (seg st)"
    using jn l(2,3) by arith
  have "get st ind = py_get (seg st) (2 ^ h - 1 + j)"
    using assms(2,3) half by (simp add: get_def Let_def j_def norm_index_def)
  also have "\<dots> = Inr (seg st ! (2 ^ h - 1 + j))"
    using kj by (rule py_get_ok)
  also have "seg st ! (2 ^ h - 1 + j) = arr st ! j"
    using arr_inv(3)[OF assms(1) jn] by simp
  finally show ?thesis by (simp add: j_def)
qed

lemma arr_gets:
  assumes "tree_inv f h st"
  shows "map Inr (arr st) = map (\<lambda>j. get st (int j)) [0..<tree_n st]"
proof (rule nth_equalityI)
  show "length (map Inr (arr st)) = length (map (\<lambda>j. get st (int j)) [0..<tree_n st])"
    using arr_inv(2)[OF assms] by simp
next
  fix i assume "i < length (map Inr (arr st))"
  then have i: "i < tree_n st" using arr_inv(2)[OF assms] by simp
  then have "get st (int i) = Inr (arr st ! nat (norm_index st (int i)))"
    by (intro get_ok[OF assms]) simp_all
  then show "map Inr (arr st) ! i = map (\<lambda>j. get st (int j)) [0..<tree_n st] ! i"
    using i arr_inv(2)[OF assms] by (simp add: norm_index_def)
qed

lemma join_all_real_slice:
  assumes "a < b" and "b \<le> length xs"
  shows "join_all f (py_slice (map Some xs) a b) = Some (left_fold f (py_slice xs a b))"
proof -
  have "py_slice xs a b \<noteq> []" using assms by (simp add: py_slice_def)
  then show ?thesis by (simp add: py_slice_map join_all_Some)
qed

lemma ceil_log_2_4: "ceil_log_2 4 = 2"
  by (simp add: ceil_log_2_def ceil_log_2_loop.simps)

lemma init_2468: "segtree_init [Some 2, Some 4, Some 6, Some 8] (+) = Inr tree_2468"
  by (simp add: segtree_init_def Let_def ceil_log_2_4 py_get_def py_set_def upt_rec
      numeral_eq_Suc tree_2468_def)

lemma reachable_2468: "tree_reachable (+) tree_2468"
  by (rule reach_build[OF init_2468])

lemma associative_plus: "associative ((+) :: int \<Rightarrow> int \<Rightarrow> int)"
  by (simp add: associative_def)

text \<open>
  C1. For every array of real items, every associative join \<open>f\<close> and all integers
  \<open>0 \<le> L < R \<le> n\<close> (so \<open>n \<ge> 1\<close>), \<^verbatim>\<open>__init__\<close> succeeds and \<^verbatim>\<open>query(L, R)\<close> on the
  tree it builds returns the left fold of \<open>f\<close> over \<^verbatim>\<open>a[L], ..., a[R-1]\<close>.
\<close>

theorem query_correct:
  assumes "associative f" and "0 \<le> L" and "L < R" and "R \<le> int (length xs)"
  shows "\<exists>st. segtree_init (map Some xs) f = Inr st
           \<and> query st L R = Inr (Some (left_fold f (py_slice xs (nat L) (nat R))))"
proof -
  from segtree_init_spec[of "map Some xs" f] obtain st where
    i: "segtree_init (map Some xs) f = Inr st" and
    inv: "tree_inv f (ceil_log_2 (int (length (map Some xs)))) st" and
    n: "tree_n st = length xs" and a: "arr st = map Some xs"
    by auto
  have "R \<le> int (tree_n st)" using assms(4) n by simp
  from query_ok[OF inv assms(2,3) this] assms(1) a
  have "query st L R = Inr (join_all f (py_slice (map Some xs) (nat L) (nat R)))" by auto
  moreover have "nat L < nat R" "nat R \<le> length xs" using assms(2,3,4) by linarith+
  ultimately have "query st L R = Inr (Some (left_fold f (py_slice xs (nat L) (nat R))))"
    by (simp add: join_all_real_slice)
  with i show ?thesis by blast
qed

theorem query_correct_witness:
  "associative ((+) :: int \<Rightarrow> int \<Rightarrow> int) \<and> (0::int) \<le> 1 \<and> (1::int) < 3
   \<and> (3::int) \<le> int (length [2, 4, 6, 8 :: int])
   \<and> segtree_init (map Some [2, 4, 6, 8]) (+) = Inr tree_2468
   \<and> query tree_2468 1 3 = Inr (Some 10)"
proof -
  have "\<exists>st. segtree_init (map Some [2, 4, 6, 8 :: int]) (+) = Inr st
           \<and> query st 1 3 = Inr (Some (left_fold (+) (py_slice [2, 4, 6, 8] (nat 1) (nat 3))))"
    by (rule query_correct[OF associative_plus]) simp_all
  then have "query tree_2468 1 3 = Inr (Some (left_fold (+) (py_slice [2, 4, 6, 8] (nat 1) (nat 3))))"
    using init_2468 by simp
  moreover have "left_fold (+) (py_slice [2, 4, 6, 8 :: int] (nat 1) (nat 3)) = 10"
    by (simp add: left_fold_def py_slice_def numeral_eq_Suc)
  ultimately show ?thesis using init_2468 associative_plus by simp
qed

lemma arr_2468: "arr tree_2468 = [Some 2, Some 4, Some 6, Some 8]"
  by (simp add: arr_def py_slice_def tree_2468_def)

lemma map_Some_the: "\<forall>x\<in>set xs. x \<noteq> None \<Longrightarrow> map Some (map the xs) = xs"
  by (induction xs) auto

text \<open>
  C2. On every tree a caller can hold over real items, with an associative join, a call
  \<^verbatim>\<open>update(i, v)\<close> with \<open>-n \<le> i < n\<close> (so \<open>n \<ge> 1\<close>) and a real \<open>v\<close> returns normally; then
  \<^verbatim>\<open>get(i)\<close> returns \<open>v\<close>, every \<^verbatim>\<open>query(L, R)\<close> with \<open>0 \<le> L < R \<le> n\<close> returns the left fold
  of the join over the previous array with the shifted position \<open>i\<close> replaced by \<open>v\<close>, and
  \<^verbatim>\<open>arr()\<close> is the list \<^verbatim>\<open>[get(0), ..., get(n-1)]\<close>.
\<close>

theorem update_correct:
  assumes "associative f" and "tree_reachable f st" and "\<forall>x\<in>set (arr st). x \<noteq> None"
    and "- int (tree_n st) \<le> i" and "i < int (tree_n st)"
  shows "\<exists>st1. update st i (Some v) = (Inr (), st1)
           \<and> get st1 i = Inr (Some v)
           \<and> (\<forall>L R. 0 \<le> L \<and> L < R \<and> R \<le> int (tree_n st) \<longrightarrow>
                 query st1 L R =
                   Inr (Some (left_fold f
                     (py_slice ((map the (arr st))[nat (norm_index st i) := v]) (nat L) (nat R)))))
           \<and> map Inr (arr st1) = map (\<lambda>j. get st1 (int j)) [0..<tree_n st1]"
proof -
  define h where "h = ceil_log_2 (int (tree_n st))"
  define j where "j = nat (norm_index st i)"
  have inv: "tree_inv f h st"
    unfolding h_def by (rule reachable_tree_inv[OF assms(2)])
  from update_ok[OF inv assms(4,5), of "Some v"] obtain sg1 where
    u: "update st i (Some v) = (Inr (), st\<lparr>seg := sg1\<rparr>)" and
    inv1: "tree_inv f h (st\<lparr>seg := sg1\<rparr>)" and
    a1: "arr (st\<lparr>seg := sg1\<rparr>) = (arr st)[j := Some v]"
    unfolding j_def by blast
  let ?st1 = "st\<lparr>seg := sg1\<rparr>"
  have n1: "tree_n ?st1 = tree_n st" by simp
  have jn: "j < tree_n st"
    using norm_index_range[OF assms(4,5)] unfolding j_def by linarith
  have len: "length (arr st) = tree_n st" by (rule arr_inv(2)[OF inv])
  have "get ?st1 i = Inr (arr ?st1 ! nat (norm_index ?st1 i))"
    using assms(4,5) by (intro get_ok[OF inv1]) simp_all
  also have "nat (norm_index ?st1 i) = j" by (simp add: j_def norm_index_def)
  also have "arr ?st1 ! j = Some v" using a1 jn len by simp
  finally have g: "get ?st1 i = Inr (Some v)" .
  have real: "arr ?st1 = map Some ((map the (arr st))[j := v])"
    using a1 map_Some_the[OF assms(3)] by (simp add: map_update)
  have q: "\<forall>L R. 0 \<le> L \<and> L < R \<and> R \<le> int (tree_n st) \<longrightarrow>
             query ?st1 L R =
               Inr (Some (left_fold f (py_slice ((map the (arr st))[j := v]) (nat L) (nat R))))"
  proof (intro allI impI)
    fix L R assume b: "0 \<le> L \<and> L < R \<and> R \<le> int (tree_n st)"
    then have b1: "0 \<le> L" "L < R" "R \<le> int (tree_n ?st1)" by simp_all
    from query_ok[OF inv1 b1] assms(1) real
    have "query ?st1 L R
            = Inr (join_all f (py_slice (map Some ((map the (arr st))[j := v])) (nat L) (nat R)))"
      by auto
    moreover have "nat L < nat R" using b by linarith
    moreover have "nat R \<le> length ((map the (arr st))[j := v])"
      using b len by (simp add: nat_le_iff)
    ultimately show "query ?st1 L R =
        Inr (Some (left_fold f (py_slice ((map the (arr st))[j := v]) (nat L) (nat R))))"
      by (simp add: join_all_real_slice)
  qed
  from u g q arr_gets[OF inv1] show ?thesis
    unfolding j_def by blast
qed

theorem update_correct_witness:
  "associative ((+) :: int \<Rightarrow> int \<Rightarrow> int) \<and> tree_reachable (+) tree_2468
   \<and> arr tree_2468 = [Some 2, Some 4, Some 6, Some 8]
   \<and> - int (tree_n tree_2468) \<le> - 2 \<and> - 2 < int (tree_n tree_2468)
   \<and> (0::int) \<le> 0 \<and> (0::int) < 4 \<and> 4 \<le> int (tree_n tree_2468)
   \<and> (\<exists>st1. update tree_2468 (- 2) (Some 100) = (Inr (), st1)
         \<and> get st1 (- 2) = Inr (Some 100)
         \<and> query st1 0 4 = Inr (Some 114)
         \<and> map Inr (arr st1) = map (\<lambda>j. get st1 (int j)) [0..<tree_n st1])"
proof -
  have h: "\<forall>x\<in>set (arr tree_2468). x \<noteq> None" by (simp add: arr_2468)
  have n: "tree_n tree_2468 = 4" by (simp add: tree_2468_def)
  have r: "- int (tree_n tree_2468) \<le> - 2" "- 2 < int (tree_n tree_2468)"
    by (simp_all add: n)
  from update_correct[OF associative_plus reachable_2468 h r, of 100] obtain st1 where
    u: "update tree_2468 (- 2) (Some 100) = (Inr (), st1)" and
    g: "get st1 (- 2) = Inr (Some 100)" and
    q: "\<forall>L R. 0 \<le> L \<and> L < R \<and> R \<le> int (tree_n tree_2468) \<longrightarrow>
          query st1 L R =
            Inr (Some (left_fold (+)
              (py_slice ((map the (arr tree_2468))[nat (norm_index tree_2468 (- 2)) := 100])
                 (nat L) (nat R))))" and
    a: "map Inr (arr st1) = map (\<lambda>j. get st1 (int j)) [0..<tree_n st1]"
    by blast
  have "query st1 0 4 =
          Inr (Some (left_fold (+)
            (py_slice ((map the (arr tree_2468))[nat (norm_index tree_2468 (- 2)) := 100])
               (nat 0) (nat 4))))"
    using q n by simp
  also have "left_fold (+)
            (py_slice ((map the (arr tree_2468))[nat (norm_index tree_2468 (- 2)) := 100])
               (nat 0) (nat 4)) = 114"
    by (simp add: arr_2468 norm_index_def n left_fold_def py_slice_def numeral_eq_Suc)
  finally have "query st1 0 4 = Inr (Some 114)" .
  with u g a arr_2468 r n associative_plus reachable_2468 show ?thesis by simp
qed

lemma tree_n_2468: "tree_n tree_2468 = 4"
  by (simp add: tree_2468_def)

lemma update_out_of_range:
  "ind \<ge> int (tree_n st) \<or> ind < - int (tree_n st) \<Longrightarrow>
   update st ind v
     = (Inl (IndexError (''Getting from index out of range: ind = '' @ py_str ind)), st)"
  by (simp add: update_def)

lemma get_out_of_range:
  "ind \<ge> int (tree_n st) \<or> ind < - int (tree_n st) \<Longrightarrow>
   get st ind = Inl (IndexError (''Getting from index out of range: ind = '' @ py_str ind))"
  by (simp add: get_def)

lemma query_out_of_range:
  "L < 0 \<or> R > int (tree_n st) \<or> L \<ge> R \<Longrightarrow>
   query st L R
     = Inl (IndexError (''[L,R] = ['' @ py_str L @ '','' @ py_str R
                          @ ''] but segtree only has '' @ py_str (int (tree_n st))
                          @ '' elements''))"
  by (simp add: query_def)

lemma norm_index_in_range:
  "(0 \<le> norm_index st ind \<and> norm_index st ind < int (tree_n st))
     \<longleftrightarrow> (- int (tree_n st) \<le> ind \<and> ind < int (tree_n st))"
  by (auto simp: norm_index_def)

text \<open>
  C3. On every tree a caller can hold (of any size, also 0), \<^verbatim>\<open>query(L, R)\<close> raises
  exactly when \<open>L < 0\<close> or \<open>R > n\<close> or \<open>L \<ge> R\<close>, and \<^verbatim>\<open>update(ind, v)\<close> and \<^verbatim>\<open>get(ind)\<close> raise
  exactly when the shifted index is outside \<open>[0, n)\<close>; the only exception is IndexError.
  A call of \<^verbatim>\<open>update\<close> that raises leaves the object, and so \<open>seg\<close>, \<open>span\<close> and \<open>n\<close>, as
  it was. \<^verbatim>\<open>query\<close> and \<^verbatim>\<open>get\<close> assign to no field, which is why they return no object.
\<close>

theorem range_errors:
  assumes "tree_reachable f st"
  shows "(isl (query st L R) \<longleftrightarrow> (L < 0 \<or> R > int (tree_n st) \<or> L \<ge> R))
       \<and> (isl (fst (update st ind v))
            \<longleftrightarrow> \<not> (0 \<le> norm_index st ind \<and> norm_index st ind < int (tree_n st)))
       \<and> (isl (get st ind)
            \<longleftrightarrow> \<not> (0 \<le> norm_index st ind \<and> norm_index st ind < int (tree_n st)))
       \<and> (isl (fst (update st ind v)) \<longrightarrow> snd (update st ind v) = st)"
proof -
  note inv = reachable_tree_inv[OF assms]
  have q: "isl (query st L R) \<longleftrightarrow> (L < 0 \<or> R > int (tree_n st) \<or> L \<ge> R)"
  proof (cases "L < 0 \<or> R > int (tree_n st) \<or> L \<ge> R")
    case True
    then show ?thesis by (simp add: query_out_of_range)
  next
    case False
    then have "0 \<le> L" "L < R" "R \<le> int (tree_n st)" by auto
    from query_ok[OF inv this] False show ?thesis by auto
  qed
  have ug: "(isl (fst (update st ind v))
               \<longleftrightarrow> \<not> (- int (tree_n st) \<le> ind \<and> ind < int (tree_n st)))
          \<and> (isl (get st ind) \<longleftrightarrow> \<not> (- int (tree_n st) \<le> ind \<and> ind < int (tree_n st)))
          \<and> (isl (fst (update st ind v)) \<longrightarrow> snd (update st ind v) = st)"
  proof (cases "- int (tree_n st) \<le> ind \<and> ind < int (tree_n st)")
    case True
    then have r: "- int (tree_n st) \<le> ind" "ind < int (tree_n st)" by auto
    from update_ok[OF inv r, of v] get_ok[OF inv r] True show ?thesis by auto
  next
    case False
    then have "ind \<ge> int (tree_n st) \<or> ind < - int (tree_n st)" by auto
    then show ?thesis using False by (simp add: update_out_of_range get_out_of_range)
  qed
  from q ug show ?thesis by (simp add: norm_index_in_range)
qed

theorem range_errors_witness:
  "tree_reachable (+) tree_2468
   \<and> isl (query tree_2468 (- 1) 5) \<and> isl (query tree_2468 2 2) \<and> isl (query tree_2468 0 5)
   \<and> \<not> isl (query tree_2468 1 3)
   \<and> isl (fst (update tree_2468 4 (Some 0))) \<and> snd (update tree_2468 4 (Some 0)) = tree_2468
   \<and> isl (get tree_2468 (- 5)) \<and> \<not> isl (get tree_2468 (- 4))"
proof -
  note t = range_errors[OF reachable_2468]
  have "isl (query tree_2468 (- 1) 5)" using t[of "- 1" 5] by (simp add: tree_n_2468)
  moreover have "isl (query tree_2468 2 2)" using t[of 2 2] by (simp add: tree_n_2468)
  moreover have "isl (query tree_2468 0 5)" using t[of 0 5] by (simp add: tree_n_2468)
  moreover have "\<not> isl (query tree_2468 1 3)" using t[of 1 3] by (simp add: tree_n_2468)
  moreover have u: "isl (fst (update tree_2468 4 (Some 0)))"
    using t[of 0 0 4 "Some 0"] by (simp add: tree_n_2468 norm_index_def)
  moreover have "snd (update tree_2468 4 (Some 0)) = tree_2468"
    using t[of 0 0 4 "Some 0"] u by blast
  moreover have "isl (get tree_2468 (- 5))"
    using t[of 0 0 "- 5"] by (simp add: tree_n_2468 norm_index_def)
  moreover have "\<not> isl (get tree_2468 (- 4))"
    using t[of 0 0 "- 4"] by (simp add: tree_n_2468 norm_index_def)
  ultimately show ?thesis using reachable_2468 by simp
qed

text \<open>
  C5. Every tree a caller can hold (after \<^verbatim>\<open>__init__\<close> and after every \<^verbatim>\<open>update\<close> that
  returned normally) has the wrapped join as its operator; every internal node \<open>i\<close> (the
  nodes below index \<open>l // 2\<close>) has both children in the lists, \<open>seg[i]\<close> is the wrapped join
  of \<open>seg[2i+1]\<close> and \<open>seg[2i+2]\<close> and \<open>span[i]\<close> is \<open>[span[2i+1][0], span[2i+2][1]]\<close>; and the
  leaf of every index \<open>idx < n\<close>, node \<open>l // 2 + idx\<close>, has span \<open>[idx, idx+1]\<close>.
\<close>

theorem node_invariants:
  assumes "tree_reachable f st"
  shows "tree_op st = op_none f
       \<and> (\<forall>i < tree_l st div 2.
             2 * i + 2 < length (seg st) \<and> 2 * i + 2 < length (span st)
             \<and> seg st ! i = tree_op st (seg st ! (2 * i + 1)) (seg st ! (2 * i + 2))
             \<and> span st ! i = (fst (span st ! (2 * i + 1)), snd (span st ! (2 * i + 2))))
       \<and> (\<forall>idx < tree_n st.
             tree_l st div 2 + idx < length (span st)
             \<and> span st ! (tree_l st div 2 + idx) = (int idx, int idx + 1))"
proof -
  define h where "h = ceil_log_2 (int (tree_n st))"
  have inv: "tree_inv f h st"
    unfolding h_def by (rule reachable_tree_inv[OF assms])
  then have l: "tree_l st = 2 * 2 ^ h - 1" "tree_n st \<le> 2 ^ h"
    "length (seg st) = 2 * 2 ^ h - 1" "length (span st) = 2 * 2 ^ h - 1"
    and op: "tree_op st = op_none f"
    and nodes: "\<forall>i < 2 ^ h - 1. seg st ! i = tree_op st (seg st ! (2 * i + 1)) (seg st ! (2 * i + 2))"
    and spans: "\<forall>i < 2 ^ h - 1. span st ! i = (fst (span st ! (2 * i + 1)), snd (span st ! (2 * i + 2)))"
    and leaves: "\<forall>j < 2 ^ h. span st ! (2 ^ h - 1 + j)
                        = (int (min j (tree_n st)), int (min (j + 1) (tree_n st)))"
    by (simp_all add: tree_inv_def)
  have half: "tree_l st div 2 = 2 ^ h - 1"
    using tree_l_half[of h] l(1) by simp
  have a: "\<forall>i < tree_l st div 2.
             2 * i + 2 < length (seg st) \<and> 2 * i + 2 < length (span st)
             \<and> seg st ! i = tree_op st (seg st ! (2 * i + 1)) (seg st ! (2 * i + 2))
             \<and> span st ! i = (fst (span st ! (2 * i + 1)), snd (span st ! (2 * i + 2)))"
  proof (intro allI impI)
    fix i assume "i < tree_l st div 2"
    then have i: "i < 2 ^ h - 1" by (simp only: half)
    then have "2 * i + 2 < 2 * 2 ^ h - 1" by arith
    with i nodes spans l(3,4)
    show "2 * i + 2 < length (seg st) \<and> 2 * i + 2 < length (span st)
             \<and> seg st ! i = tree_op st (seg st ! (2 * i + 1)) (seg st ! (2 * i + 2))
             \<and> span st ! i = (fst (span st ! (2 * i + 1)), snd (span st ! (2 * i + 2)))"
      by simp
  qed
  have b: "\<forall>idx < tree_n st.
             tree_l st div 2 + idx < length (span st)
             \<and> span st ! (tree_l st div 2 + idx) = (int idx, int idx + 1)"
  proof (intro allI impI)
    fix idx assume x: "idx < tree_n st"
    then have k: "idx < 2 ^ h" using l(2) by simp
    then have "2 ^ h - 1 + idx < 2 * 2 ^ h - 1" by arith
    moreover have "span st ! (2 ^ h - 1 + idx) = (int idx, int idx + 1)"
      using leaves k x by (simp add: min_def)
    ultimately show "tree_l st div 2 + idx < length (span st)
             \<and> span st ! (tree_l st div 2 + idx) = (int idx, int idx + 1)"
      using l(4) by (simp add: half)
  qed
  from op a b show ?thesis by blast
qed

theorem node_invariants_witness:
  "tree_reachable (+) tree_2468 \<and> (1::nat) < tree_l tree_2468 div 2 \<and> (2::nat) < tree_n tree_2468
   \<and> tree_op tree_2468 = op_none (+)
   \<and> seg tree_2468 ! 1 = tree_op tree_2468 (seg tree_2468 ! 3) (seg tree_2468 ! 4)
   \<and> span tree_2468 ! 1 = (fst (span tree_2468 ! 3), snd (span tree_2468 ! 4))
   \<and> span tree_2468 ! (tree_l tree_2468 div 2 + 2) = (2, 3)"
proof -
  have i: "(1::nat) < tree_l tree_2468 div 2" by (simp add: tree_2468_def)
  have x: "(2::nat) < tree_n tree_2468" by (simp add: tree_2468_def)
  from node_invariants[OF reachable_2468] i x
  have "tree_op tree_2468 = op_none (+)"
    and "seg tree_2468 ! 1 = tree_op tree_2468 (seg tree_2468 ! (2 * 1 + 1)) (seg tree_2468 ! (2 * 1 + 2))"
    and "span tree_2468 ! 1 = (fst (span tree_2468 ! (2 * 1 + 1)), snd (span tree_2468 ! (2 * 1 + 2)))"
    and "span tree_2468 ! (tree_l tree_2468 div 2 + 2) = (int 2, int 2 + 1)"
    by blast+
  with i x reachable_2468 show ?thesis by simp
qed

text \<open>
  C6. On every tree, for every \<open>v\<close> and every index \<open>-n \<le> ind < 0\<close> (so \<open>n \<ge> 1\<close>),
  \<^verbatim>\<open>update(ind, v)\<close> has the outcome and the resulting object of \<^verbatim>\<open>update(ind + n, v)\<close>, and
  \<^verbatim>\<open>get(ind)\<close> returns what \<^verbatim>\<open>get(ind + n)\<close> returns; \<open>ind = -1\<close> gives \<^verbatim>\<open>update(n-1, v)\<close>.
\<close>

theorem negative_index_wrap:
  assumes "- int (tree_n st) \<le> ind" and "ind < 0"
  shows "update st ind v = update st (ind + int (tree_n st)) v
       \<and> get st ind = get st (ind + int (tree_n st))"
  using assms by (simp add: update_def get_def Let_def)

theorem negative_index_wrap_witness:
  "- int (tree_n tree_2468) \<le> - 1 \<and> (- 1 :: int) < 0
   \<and> update tree_2468 (- 1) (Some 9) = update tree_2468 3 (Some 9)
   \<and> get tree_2468 (- 1) = get tree_2468 3"
proof -
  have a: "- int (tree_n tree_2468) \<le> - 1" by (simp add: tree_n_2468)
  from negative_index_wrap[OF a, of "Some 9"] a show ?thesis by (simp add: tree_n_2468)
qed

lemma ceil_log_2_5: "ceil_log_2 5 = 3"
  by (simp add: ceil_log_2_def ceil_log_2_loop.simps)

text \<open>
  C7. For every array of length \<open>n \<ge> 1\<close>, the padded leaf count
  \<open>k = 2 ** _ceil_log_2(n)\<close> is a power of two with \<open>n \<le> k\<close>, no power of two below \<open>k\<close> is
  \<open>\<ge> n\<close>, \<^verbatim>\<open>_ceil_log_2(n)\<close> is the ceiling of the base-2 logarithm of \<open>n\<close>, and \<^verbatim>\<open>__init__\<close>
  succeeds with \<open>l = 2*k - 1\<close> and lists \<open>seg\<close> and \<open>span\<close> of length \<open>2*k - 1\<close>.
\<close>

theorem padded_leaf_count:
  assumes "1 \<le> length a"
  shows "length a \<le> 2 ^ ceil_log_2 (int (length a))
       \<and> (\<forall>m. length a \<le> 2 ^ m \<longrightarrow> (2::nat) ^ ceil_log_2 (int (length a)) \<le> 2 ^ m)
       \<and> int (ceil_log_2 (int (length a))) = \<lceil>log 2 (real (length a))\<rceil>
       \<and> (\<exists>st. segtree_init a f = Inr st
              \<and> tree_l st = 2 * 2 ^ ceil_log_2 (int (length a)) - 1
              \<and> length (seg st) = 2 * 2 ^ ceil_log_2 (int (length a)) - 1
              \<and> length (span st) = 2 * 2 ^ ceil_log_2 (int (length a)) - 1)"
proof -
  let ?c = "ceil_log_2 (int (length a))"
  have n: "1 \<le> int (length a)" using assms by simp
  have least: "\<forall>m. length a \<le> 2 ^ m \<longrightarrow> (2::nat) ^ ?c \<le> 2 ^ m"
  proof (intro allI impI)
    fix m assume "length a \<le> 2 ^ m"
    then have "int (length a) \<le> int (2 ^ m)" by (simp only: of_nat_le_iff)
    then have "int (length a) \<le> 2 ^ m" by simp
    from ceil_log_2_least[OF n this] show "(2::nat) ^ ?c \<le> 2 ^ m"
      by (rule power_increasing) simp
  qed
  from segtree_init_spec[of a f] obtain st where
    "segtree_init a f = Inr st" "tree_inv f ?c st"
    by blast
  then have "\<exists>st. segtree_init a f = Inr st
              \<and> tree_l st = 2 * 2 ^ ?c - 1
              \<and> length (seg st) = 2 * 2 ^ ?c - 1
              \<and> length (span st) = 2 * 2 ^ ?c - 1"
    by (auto simp: tree_inv_def)
  with length_le_pow[of a] least ceil_log_2_ceiling[OF assms] show ?thesis by blast
qed

theorem padded_leaf_count_witness:
  "(1::nat) \<le> length [Some 1, Some 2, Some 3, Some 4, Some (5::int)]
   \<and> length [Some 1, Some 2, Some 3, Some 4, Some (5::int)] \<le> 2 ^ 3
   \<and> (2::nat) ^ ceil_log_2 (int (length [Some 1, Some 2, Some 3, Some 4, Some (5::int)])) = 8
   \<and> \<lceil>log 2 (real (length [Some 1, Some 2, Some 3, Some 4, Some (5::int)]))\<rceil> = 3
   \<and> (2::nat) ^ ceil_log_2 (int (length [Some 1, Some 2, Some 3, Some 4, Some (5::int)])) \<le> 2 ^ 3
   \<and> (\<exists>st. segtree_init [Some 1, Some 2, Some 3, Some 4, Some (5::int)] (+) = Inr st
          \<and> tree_l st = 15 \<and> length (seg st) = 15 \<and> length (span st) = 15)"
proof -
  let ?a = "[Some 1, Some 2, Some 3, Some 4, Some (5::int)]"
  have h: "1 \<le> length ?a" by simp
  have c: "ceil_log_2 (int (length ?a)) = 3" by (simp add: ceil_log_2_5)
  from padded_leaf_count[OF h, of "(+)"] c show ?thesis by simp
qed

text \<open>
  C10. Built from the empty array, \<^verbatim>\<open>__init__\<close> succeeds with \<open>n = 0\<close> and one node whose
  value is \<^verbatim>\<open>None\<close> and whose span is \<open>[0, 0]\<close>. On that object every call of \<^verbatim>\<open>query\<close>,
  \<^verbatim>\<open>update\<close> and \<^verbatim>\<open>get\<close> raises (IndexError is the only exception), a call of \<^verbatim>\<open>update\<close>
  leaves the object as it was, so this holds after any number of calls, and \<^verbatim>\<open>arr()\<close>
  is the empty list.
\<close>

theorem empty_tree:
  "\<exists>st. segtree_init [] f = Inr st
      \<and> tree_n st = 0 \<and> tree_l st = 1 \<and> seg st = [None] \<and> span st = [(0, 0)]
      \<and> (\<forall>L R. isl (query st L R))
      \<and> (\<forall>ind v. isl (fst (update st ind v)) \<and> snd (update st ind v) = st)
      \<and> (\<forall>ind. isl (get st ind))
      \<and> arr st = []"
proof -
  define st :: "'a segtree" where
    "st = \<lparr>tree_n = 0, tree_op = op_none f, tree_l = 1, seg = [None], span = [(0, 0)]\<rparr>"
  have i: "segtree_init [] f = Inr st"
    by (simp add: segtree_init_def Let_def ceil_log_2_small st_def)
  have n: "tree_n st = 0" by (simp add: st_def)
  have q: "\<forall>L R. isl (query st L R)"
  proof (intro allI)
    fix L R :: int
    have "L < 0 \<or> R > int (tree_n st) \<or> L \<ge> R" using n by auto
    then show "isl (query st L R)" by (simp add: query_out_of_range)
  qed
  have u: "\<forall>ind v. isl (fst (update st ind v)) \<and> snd (update st ind v) = st"
  proof (intro allI)
    fix ind :: int and v :: "'a option"
    have "ind \<ge> int (tree_n st) \<or> ind < - int (tree_n st)" using n by auto
    then show "isl (fst (update st ind v)) \<and> snd (update st ind v) = st"
      by (simp add: update_out_of_range)
  qed
  have g: "\<forall>ind. isl (get st ind)"
  proof (intro allI)
    fix ind :: int
    have "ind \<ge> int (tree_n st) \<or> ind < - int (tree_n st)" using n by auto
    then show "isl (get st ind)" by (simp add: get_out_of_range)
  qed
  have a: "arr st = []" by (simp add: arr_def py_slice_def st_def)
  from i q u g a show ?thesis by (auto simp: st_def)
qed

section \<open>Segtree: error messages\<close>

lemma mentions_mid: "mentions (p @ py_str x @ s) x"
  by (simp add: mentions_def)

text \<open>
  C9, as the code has it. On every tree a caller can hold, each exception raised by
  \<^verbatim>\<open>query\<close>, \<^verbatim>\<open>update\<close> and \<^verbatim>\<open>get\<close> is an IndexError. The message of \<^verbatim>\<open>query\<close> carries the
  supplied \<open>L\<close> and \<open>R\<close> and the size \<open>n\<close>; the message of \<^verbatim>\<open>update\<close> and of \<^verbatim>\<open>get\<close> is
  \<^verbatim>\<open>Getting from index out of range: ind = \<close> followed by the supplied index, and nothing
  else.
\<close>

theorem error_messages:
  assumes "tree_reachable f st"
  shows "(\<forall>e. query st L R = Inl e \<longrightarrow>
            (\<exists>msg. e = IndexError msg \<and> mentions msg L \<and> mentions msg R
                   \<and> mentions msg (int (tree_n st))))
       \<and> (\<forall>e. fst (update st ind v) = Inl e \<longrightarrow>
            e = IndexError (''Getting from index out of range: ind = '' @ py_str ind)
            \<and> mentions (''Getting from index out of range: ind = '' @ py_str ind) ind)
       \<and> (\<forall>e. get st ind = Inl e \<longrightarrow>
            e = IndexError (''Getting from index out of range: ind = '' @ py_str ind)
            \<and> mentions (''Getting from index out of range: ind = '' @ py_str ind) ind)"
proof -
  note inv = reachable_tree_inv[OF assms]
  have m: "mentions (''Getting from index out of range: ind = '' @ py_str ind) ind"
    using mentions_mid[of "''Getting from index out of range: ind = ''" ind "[]"] by simp
  have q: "\<forall>e. query st L R = Inl e \<longrightarrow>
            (\<exists>msg. e = IndexError msg \<and> mentions msg L \<and> mentions msg R
                   \<and> mentions msg (int (tree_n st)))"
  proof (intro allI impI)
    fix e assume e: "query st L R = Inl e"
    have bad: "L < 0 \<or> R > int (tree_n st) \<or> L \<ge> R"
    proof (rule ccontr)
      assume "\<not> ?thesis"
      then have "0 \<le> L" "L < R" "R \<le> int (tree_n st)" by auto
      from query_ok[OF inv this] e show False by auto
    qed
    let ?n = "py_str (int (tree_n st))"
    let ?msg = "''[L,R] = ['' @ py_str L @ '','' @ py_str R
                  @ ''] but segtree only has '' @ ?n @ '' elements''"
    have "e = IndexError ?msg"
      using query_out_of_range[OF bad] e by simp
    moreover have "mentions ?msg L"
      by (rule mentions_mid)
    moreover have "mentions ?msg R"
      using mentions_mid[of "''[L,R] = ['' @ py_str L @ '',''" R
          "''] but segtree only has '' @ ?n @ '' elements''"]
      by simp
    moreover have "mentions ?msg (int (tree_n st))"
      using mentions_mid[of "''[L,R] = ['' @ py_str L @ '','' @ py_str R
             @ ''] but segtree only has ''" "int (tree_n st)" "'' elements''"]
      by simp
    ultimately show "\<exists>msg. e = IndexError msg \<and> mentions msg L \<and> mentions msg R
                   \<and> mentions msg (int (tree_n st))"
      by blast
  qed
  have bad_ind: "ind \<ge> int (tree_n st) \<or> ind < - int (tree_n st)"
    if "isl (fst (update st ind v)) \<or> isl (get st ind)"
  proof (rule ccontr)
    assume "\<not> ?thesis"
    then have r: "- int (tree_n st) \<le> ind" "ind < int (tree_n st)" by auto
    from update_ok[OF inv r, of v] get_ok[OF inv r] that show False by auto
  qed
  have u: "\<forall>e. fst (update st ind v) = Inl e \<longrightarrow>
            e = IndexError (''Getting from index out of range: ind = '' @ py_str ind)
            \<and> mentions (''Getting from index out of range: ind = '' @ py_str ind) ind"
  proof (intro allI impI)
    fix e assume e: "fst (update st ind v) = Inl e"
    then have "ind \<ge> int (tree_n st) \<or> ind < - int (tree_n st)"
      by (intro bad_ind) simp
    from update_out_of_range[OF this, of v] e m
    show "e = IndexError (''Getting from index out of range: ind = '' @ py_str ind)
            \<and> mentions (''Getting from index out of range: ind = '' @ py_str ind) ind"
      by simp
  qed
  have g: "\<forall>e. get st ind = Inl e \<longrightarrow>
            e = IndexError (''Getting from index out of range: ind = '' @ py_str ind)
            \<and> mentions (''Getting from index out of range: ind = '' @ py_str ind) ind"
  proof (intro allI impI)
    fix e assume e: "get st ind = Inl e"
    then have "ind \<ge> int (tree_n st) \<or> ind < - int (tree_n st)"
      by (intro bad_ind) simp
    from get_out_of_range[OF this] e m
    show "e = IndexError (''Getting from index out of range: ind = '' @ py_str ind)
            \<and> mentions (''Getting from index out of range: ind = '' @ py_str ind) ind"
      by simp
  qed
  from q u g show ?thesis by blast
qed

theorem error_messages_witness:
  "tree_reachable (+) tree_2468
   \<and> query tree_2468 (- 1) 5 = Inl (IndexError ''[L,R] = [-1,5] but segtree only has 4 elements'')
   \<and> mentions ''[L,R] = [-1,5] but segtree only has 4 elements'' (- 1)
   \<and> mentions ''[L,R] = [-1,5] but segtree only has 4 elements'' 5
   \<and> mentions ''[L,R] = [-1,5] but segtree only has 4 elements'' (int (tree_n tree_2468))
   \<and> fst (update tree_2468 7 (Some 0))
       = Inl (IndexError ''Getting from index out of range: ind = 7'')
   \<and> mentions ''Getting from index out of range: ind = 7'' 7
   \<and> get tree_2468 (- 5) = Inl (IndexError ''Getting from index out of range: ind = -5'')
   \<and> mentions ''Getting from index out of range: ind = -5'' (- 5)"
proof -
  have s: "py_str (- 1) = ''-1''" "py_str 5 = ''5''" "py_str 4 = ''4''" "py_str 7 = ''7''"
    "py_str (- 5) = ''-5''"
    by (simp_all add: py_str_def str_nat.simps digit_char_def)
  have q: "query tree_2468 (- 1) 5
             = Inl (IndexError ''[L,R] = [-1,5] but segtree only has 4 elements'')"
    by (simp add: query_def tree_n_2468 s)
  have u: "fst (update tree_2468 7 (Some 0))
             = Inl (IndexError ''Getting from index out of range: ind = 7'')"
    by (simp add: update_def tree_n_2468 s)
  have g: "get tree_2468 (- 5) = Inl (IndexError ''Getting from index out of range: ind = -5'')"
    by (simp add: get_def tree_n_2468 s)
  from error_messages[OF reachable_2468, of "- 1" 5 7 "Some 0"] q u
  have "mentions ''[L,R] = [-1,5] but segtree only has 4 elements'' (- 1)"
    and "mentions ''[L,R] = [-1,5] but segtree only has 4 elements'' 5"
    and "mentions ''[L,R] = [-1,5] but segtree only has 4 elements'' (int (tree_n tree_2468))"
    and "mentions ''Getting from index out of range: ind = 7'' 7"
    by (auto simp: s)
  moreover from error_messages[OF reachable_2468, of 0 0 "- 5"] g
  have "mentions ''Getting from index out of range: ind = -5'' (- 5)"
    by (auto simp: s)
  ultimately show ?thesis using q u g reachable_2468 by simp
qed

text \<open>
  C9, as stated, fails: on the tree of size 4 built from \<open>[2, 4, 6, 8]\<close>, \<^verbatim>\<open>update(7, 0)\<close>
  raises an IndexError whose message does not carry the size 4.
\<close>

theorem error_messages_counterexample:
  "tree_reachable (+) tree_2468 \<and> tree_n tree_2468 = 4
   \<and> fst (update tree_2468 7 (Some 0))
       = Inl (IndexError ''Getting from index out of range: ind = 7'')
   \<and> \<not> mentions ''Getting from index out of range: ind = 7'' (int (tree_n tree_2468))"
proof -
  have s: "py_str 7 = ''7''" "py_str 4 = ''4''"
    by (simp_all add: py_str_def str_nat.simps digit_char_def)
  have u: "fst (update tree_2468 7 (Some 0))
             = Inl (IndexError ''Getting from index out of range: ind = 7'')"
    by (simp add: update_def tree_n_2468 s)
  have "\<not> sublist ''4'' ''Getting from index out of range: ind = 7''"
  proof
    assume "sublist ''4'' ''Getting from index out of range: ind = 7''"
    then have "set ''4'' \<subseteq> set ''Getting from index out of range: ind = 7''"
      by (rule set_mono_sublist)
    then show False by simp
  qed
  then have "\<not> mentions ''Getting from index out of range: ind = 7'' (int (tree_n tree_2468))"
    by (simp add: mentions_def tree_n_2468 s)
  with u reachable_2468 tree_n_2468 show ?thesis by simp
qed

end
